theory Spec2Isabelle
  imports Main "HOL-Library.Word"
begin

unbundle bit_operations_syntax

section \<open>Run-time panics\<close>

text \<open>
  The example functions have no error returns of their own.  What can go wrong is a
  run-time panic of the language: dereferencing a nil pointer, an index or a slice bound
  out of range, \<^verbatim>\<open>make\<close> with a length that is negative or too large, a send on
  a closed channel, and an assignment to an entry of a nil map.
  Go's \<^verbatim>\<open>int\<close> is modelled as \<open>int\<close> where the values stay far inside the
  64-bit range (constants, loop counters, sizes that are only compared), and as the
  64-bit word \<open>int64\<close> where a function computes with an arbitrary argument, so that
  the arithmetic wraps around as the machine's does.
\<close>

datatype panic =
    NilDereference
  | IndexOutOfRange
  | SliceBoundsOutOfRange
  | MakeSliceLenOutOfRange
  | SendOnClosedChannel
  | AssignToNilMap

definition returns :: "panic + 'a \<Rightarrow> bool" where
  "returns r = (case r of Inl _ \<Rightarrow> False | Inr _ \<Rightarrow> True)"

section \<open>Integers behind pointers (functions.go, cases 1, 2 and 9)\<close>

text \<open>
  A store of \<^verbatim>\<open>int\<close> cells.  \<open>cells\<close> gives the value at an address and \<open>next_cell\<close> is
  the first address never allocated.  A \<^verbatim>\<open>*int\<close> is \<open>None\<close> (nil) or \<open>Some a\<close>.
\<close>

record int_store =
  cells :: "nat \<Rightarrow> int"
  next_cell :: nat

type_synonym int_ptr = "nat option"

definition deref :: "int_store \<Rightarrow> int_ptr \<Rightarrow> panic + int" where
  "deref st p = (case p of None \<Rightarrow> Inl NilDereference | Some a \<Rightarrow> Inr (cells st a))"

text \<open>\<^verbatim>\<open>x := 42; return &x\<close>: the local escapes, so it is a fresh cell of the store.\<close>

definition returnPointer :: "int_store \<Rightarrow> int_ptr \<times> int_store" where
  "returnPointer st =
     (let x = next_cell st
      in (Some x, st\<lparr>cells := (cells st)(x := 42), next_cell := Suc x\<rparr>))"

definition returnValue :: int where
  "returnValue = (let x = 42 in x)"

definition returnLocalPointer :: "int_store \<Rightarrow> int_ptr \<times> int_store" where
  "returnLocalPointer st =
     (let x = next_cell st
      in (Some x, st\<lparr>cells := (cells st)(x := 42), next_cell := Suc x\<rparr>))"

text \<open>\<^verbatim>\<open>*result = 42\<close>\<close>

definition setValueViaPointer :: "int_store \<Rightarrow> int_ptr \<Rightarrow> panic + int_store" where
  "setValueViaPointer st result =
     (case result of
        None \<Rightarrow> Inl NilDereference
      | Some a \<Rightarrow> Inr (st\<lparr>cells := (cells st)(a := 42)\<rparr>))"

section \<open>Table lookup and map lookup (techniques 15 and its heap counterpart)\<close>

definition useArrayInsteadOfMap :: "int \<Rightarrow> string" where
  "useArrayInsteadOfMap key =
     (let values = [''zero'', ''one'', ''two'', ''three'']
      in if key \<ge> 0 \<and> key < int (length values) then values ! nat key
         else ''unknown'')"

definition mapLookup :: "int \<Rightarrow> string" where
  "mapLookup key =
     (let m = map_of [(0::int, ''zero''), (1, ''one''), (2, ''two''), (3, ''three'')]
      in case m key of Some val \<Rightarrow> val | None \<Rightarrow> ''unknown'')"

section \<open>Slices of integers (functions.go, cases 5 and 11; techniques 12 and its heap counterpart)\<close>

text \<open>
  A \<^verbatim>\<open>[]int\<close> as its owner sees it: \<open>backing\<close> is the underlying array from the
  slice's first element up to its capacity, \<open>len_i\<close> the length.  The slices of these
  functions are local or reached through one pointer, so no second view of the array is
  modelled.  The parameter \<^verbatim>\<open>size\<close> of the source is written \<open>sz\<close> and the local
  \<^verbatim>\<open>slice\<close> is written \<open>slc\<close>, since HOL has constants of those names.

  \<open>makeslice\<close> is \<^verbatim>\<open>make([]int, n)\<close> with a length known only at run time: the
  run time panics when the length is negative or exceeds the largest length it can
  allocate for the element type.  That bound is platform-dependent and is the parameter
  \<open>maxlen\<close>.  \<open>make_ints\<close> is \<^verbatim>\<open>make\<close> with constant arguments, which the
  compiler checks.

  \<open>append_i\<close> is the built-in \<^verbatim>\<open>append\<close> of one element: in place when the capacity
  suffices, else into a new array that holds the old elements and the new one.  How much
  larger the new array is, is the run time's policy, the parameter \<open>growcap\<close> (old
  capacity, needed length); the new capacity is never below the needed length.
\<close>

record int_slice =
  backing :: "int list"
  len_i :: nat

definition cap_i :: "int_slice \<Rightarrow> nat" where
  "cap_i s = length (backing s)"

definition elems_i :: "int_slice \<Rightarrow> int list" where
  "elems_i s = take (len_i s) (backing s)"

definition wf_i :: "int_slice \<Rightarrow> bool" where
  "wf_i s = (len_i s \<le> cap_i s)"

definition make_ints :: "nat \<Rightarrow> nat \<Rightarrow> int_slice" where
  "make_ints l c = \<lparr>backing = replicate c 0, len_i = l\<rparr>"

definition makeslice :: "nat \<Rightarrow> int \<Rightarrow> panic + int_slice" where
  "makeslice maxlen sz =
     (if sz < 0 \<or> int maxlen < sz then Inl MakeSliceLenOutOfRange
      else Inr (make_ints (nat sz) (nat sz)))"

definition slice_to :: "int_slice \<Rightarrow> int \<Rightarrow> panic + int_slice" where
  "slice_to s n =
     (if 0 \<le> n \<and> n \<le> int (cap_i s) then Inr (s\<lparr>len_i := nat n\<rparr>)
      else Inl SliceBoundsOutOfRange)"

definition index_i :: "int_slice \<Rightarrow> int \<Rightarrow> panic + int" where
  "index_i s i =
     (if 0 \<le> i \<and> i < int (len_i s) then Inr (backing s ! nat i)
      else Inl IndexOutOfRange)"

definition set_index_i :: "int_slice \<Rightarrow> int \<Rightarrow> int \<Rightarrow> panic + int_slice" where
  "set_index_i s i v =
     (if 0 \<le> i \<and> i < int (len_i s) then Inr (s\<lparr>backing := (backing s)[nat i := v]\<rparr>)
      else Inl IndexOutOfRange)"

definition append_i :: "(nat \<Rightarrow> nat \<Rightarrow> nat) \<Rightarrow> int_slice \<Rightarrow> int \<Rightarrow> int_slice" where
  "append_i growcap s v =
     (let need = len_i s + 1
      in if need \<le> cap_i s
         then \<lparr>backing = (backing s)[len_i s := v], len_i = need\<rparr>
         else (let newcap = max need (growcap (cap_i s) need)
               in \<lparr>backing = elems_i s @ [v] @ replicate (newcap - need) 0, len_i = need\<rparr>))"

definition createSlice :: "nat \<Rightarrow> int \<Rightarrow> panic + int_slice" where
  "createSlice maxlen sz = (case makeslice maxlen sz of Inl e \<Rightarrow> Inl e | Inr s \<Rightarrow> Inr s)"

text \<open>
  \<^verbatim>\<open>for i := range *result { (*result)[i] = i }\<close>: the range expression is evaluated
  once, so the bound \<open>n\<close> is the length at loop entry.
\<close>

function initSlice_loop :: "int_slice \<Rightarrow> int \<Rightarrow> int \<Rightarrow> panic + int_slice" where
  "initSlice_loop s i n =
     (if i < n
      then (case set_index_i s i i of
              Inl e \<Rightarrow> Inl e
            | Inr s' \<Rightarrow> initSlice_loop s' (i + 1) n)
      else Inr s)"
  by pat_completeness auto
termination
  by (relation "measure (\<lambda>(s, i, n). nat (n - i))") auto

definition initSliceViaPointer :: "nat \<Rightarrow> int_slice option \<Rightarrow> int \<Rightarrow> panic + int_slice" where
  "initSliceViaPointer maxlen result sz =
     (case result of
        None \<Rightarrow> Inl NilDereference
      | Some s \<Rightarrow>
          (case (if int (cap_i s) \<ge> sz then slice_to s sz else makeslice maxlen sz) of
             Inl e \<Rightarrow> Inl e
           | Inr s' \<Rightarrow> initSlice_loop s' 0 (int (len_i s'))))"

text \<open>\<^verbatim>\<open>for i := 0; i < 100; i++ { result = append(result, i*i) }\<close>\<close>

function preallocatedSlice_loop :: "(nat \<Rightarrow> nat \<Rightarrow> nat) \<Rightarrow> int_slice \<Rightarrow> int \<Rightarrow> int_slice" where
  "preallocatedSlice_loop growcap result i =
     (if i < 100 then preallocatedSlice_loop growcap (append_i growcap result (i * i)) (i + 1)
      else result)"
  by pat_completeness auto
termination
  by (relation "measure (\<lambda>(g, s, i). nat (100 - i))") auto

definition preallocatedSlice :: "(nat \<Rightarrow> nat \<Rightarrow> nat) \<Rightarrow> int_slice" where
  "preallocatedSlice growcap = preallocatedSlice_loop growcap (make_ints 0 100) 0"

text \<open>\<^verbatim>\<open>for i := 0; i < 100; i++ { slice = append(slice, i*i) }\<close>\<close>

function sliceGrowth_loop :: "(nat \<Rightarrow> nat \<Rightarrow> nat) \<Rightarrow> int_slice \<Rightarrow> int \<Rightarrow> int_slice" where
  "sliceGrowth_loop growcap slc i =
     (if i < 100 then sliceGrowth_loop growcap (append_i growcap slc (i * i)) (i + 1)
      else slc)"
  by pat_completeness auto
termination
  by (relation "measure (\<lambda>(g, s, i). nat (100 - i))") auto

definition sliceGrowth :: "(nat \<Rightarrow> nat \<Rightarrow> nat) \<Rightarrow> int_slice" where
  "sliceGrowth growcap = sliceGrowth_loop growcap \<lparr>backing = [], len_i = 0\<rparr> 0"

section \<open>Byte slices in a heap of arrays (technique 10, BufferProcessor)\<close>

text \<open>
  ProcessData returns its own buffer, so the caller and the processor share one array
  and the next call writes where the last result still points.  Byte slices are therefore
  views into a heap of arrays: \<open>arrays\<close> gives the array at an address, \<open>next_array\<close>
  is the first address never allocated.  A slice is the address of its array, the offset
  of its first element, its length and its capacity; \<open>nil_bytes\<close> is the nil slice.

  \<open>append_bytes\<close> is \<^verbatim>\<open>append(s, data...)\<close>: the source bytes are read first
  (the copy is a memmove, so overlapping views are safe), then written behind the
  elements of \<open>s\<close> when the capacity suffices, else into a new array whose capacity is
  at least the needed length (\<open>growcap\<close> is the run time's growth policy).
  The parameter \<^verbatim>\<open>data\<close> of the source is written \<open>dat\<close>, since \<open>data\<close> is
  the field of \<^verbatim>\<open>LargeStruct\<close>.
\<close>

type_synonym byte = "8 word"

record heap =
  arrays :: "nat \<Rightarrow> byte list"
  next_array :: nat

record byte_slice =
  base :: nat
  off :: nat
  len_b :: nat
  cap_b :: nat

definition nil_bytes :: byte_slice where
  "nil_bytes = \<lparr>base = 0, off = 0, len_b = 0, cap_b = 0\<rparr>"

definition wf_b :: "heap \<Rightarrow> byte_slice \<Rightarrow> bool" where
  "wf_b h s =
     (len_b s \<le> cap_b s \<and>
      (cap_b s = 0 \<or>
       (base s < next_array h \<and> off s + cap_b s \<le> length (arrays h (base s)))))"

definition bytes :: "heap \<Rightarrow> byte_slice \<Rightarrow> byte list" where
  "bytes h s = take (len_b s) (drop (off s) (arrays h (base s)))"

definition index_b :: "heap \<Rightarrow> byte_slice \<Rightarrow> int \<Rightarrow> panic + byte" where
  "index_b h s i =
     (if 0 \<le> i \<and> i < int (len_b s) then Inr (arrays h (base s) ! (off s + nat i))
      else Inl IndexOutOfRange)"

definition set_index_b :: "heap \<Rightarrow> byte_slice \<Rightarrow> int \<Rightarrow> byte \<Rightarrow> panic + heap" where
  "set_index_b h s i v =
     (if 0 \<le> i \<and> i < int (len_b s)
      then Inr (h\<lparr>arrays := (arrays h)(base s := (arrays h (base s))[off s + nat i := v])\<rparr>)
      else Inl IndexOutOfRange)"

definition slice_to_b :: "byte_slice \<Rightarrow> int \<Rightarrow> panic + byte_slice" where
  "slice_to_b s n =
     (if 0 \<le> n \<and> n \<le> int (cap_b s) then Inr (s\<lparr>len_b := nat n\<rparr>)
      else Inl SliceBoundsOutOfRange)"

definition make_bytes :: "heap \<Rightarrow> nat \<Rightarrow> nat \<Rightarrow> byte_slice \<times> heap" where
  "make_bytes h l c =
     (let a = next_array h
      in (\<lparr>base = a, off = 0, len_b = l, cap_b = c\<rparr>,
          h\<lparr>arrays := (arrays h)(a := replicate c 0), next_array := Suc a\<rparr>))"

definition write_at :: "'a list \<Rightarrow> nat \<Rightarrow> 'a list \<Rightarrow> 'a list" where
  "write_at xs p ys = take p xs @ ys @ drop (p + length ys) xs"

definition append_bytes ::
  "(nat \<Rightarrow> nat \<Rightarrow> nat) \<Rightarrow> heap \<Rightarrow> byte_slice \<Rightarrow> byte_slice \<Rightarrow> byte_slice \<times> heap" where
  "append_bytes growcap h s dat =
     (let src = bytes h dat; need = len_b s + length src
      in if need \<le> cap_b s
         then (s\<lparr>len_b := need\<rparr>,
               h\<lparr>arrays := (arrays h)
                    (base s := write_at (arrays h (base s)) (off s + len_b s) src)\<rparr>)
         else (let newcap = max need (growcap (cap_b s) need); a = next_array h
               in (\<lparr>base = a, off = 0, len_b = need, cap_b = newcap\<rparr>,
                   h\<lparr>arrays := (arrays h)
                        (a := bytes h s @ src @ replicate (newcap - need) 0),
                     next_array := Suc a\<rparr>)))"

text \<open>
  The receiver \<^verbatim>\<open>bp *BufferProcessor\<close> is \<open>None\<close> (nil) or \<open>Some\<close> processor; the
  function returns the processor as the call leaves it, with the result and the heap.
\<close>

record BufferProcessor =
  buffer :: byte_slice

definition NewBufferProcessor :: "heap \<Rightarrow> BufferProcessor option \<times> heap" where
  "NewBufferProcessor h =
     (let (buf, h') = make_bytes h 0 1024 in (Some \<lparr>buffer = buf\<rparr>, h'))"

text \<open>\<^verbatim>\<open>for i := range bp.buffer { bp.buffer[i] = bp.buffer[i] ^ 0xFF }\<close>\<close>

function ProcessData_loop :: "heap \<Rightarrow> byte_slice \<Rightarrow> int \<Rightarrow> int \<Rightarrow> panic + heap" where
  "ProcessData_loop h s i n =
     (if i < n
      then (case index_b h s i of
              Inl e \<Rightarrow> Inl e
            | Inr v \<Rightarrow>
                (case set_index_b h s i (v XOR 0xFF) of
                   Inl e \<Rightarrow> Inl e
                 | Inr h' \<Rightarrow> ProcessData_loop h' s (i + 1) n))
      else Inr h)"
  by pat_completeness auto
termination
  by (relation "measure (\<lambda>(h, s, i, n). nat (n - i))") auto

definition ProcessData ::
  "(nat \<Rightarrow> nat \<Rightarrow> nat) \<Rightarrow> heap \<Rightarrow> BufferProcessor option \<Rightarrow> byte_slice
     \<Rightarrow> panic + (byte_slice \<times> BufferProcessor \<times> heap)" where
  "ProcessData growcap h bp dat =
     (case bp of
        None \<Rightarrow> Inl NilDereference
      | Some p \<Rightarrow>
          (case slice_to_b (buffer p) 0 of
             Inl e \<Rightarrow> Inl e
           | Inr b0 \<Rightarrow>
               (let (b1, h1) = append_bytes growcap h b0 dat
                in case ProcessData_loop h1 b1 0 (int (len_b b1)) of
                     Inl e \<Rightarrow> Inl e
                   | Inr h2 \<Rightarrow> Inr (b1, p\<lparr>buffer := b1\<rparr>, h2))))"

section \<open>The object pool (technique 8)\<close>

text \<open>
  \<^verbatim>\<open>LargeStruct\<close> objects live in a store; a \<^verbatim>\<open>*LargeStruct\<close> is \<open>None\<close> (nil) or
  \<open>Some\<close> address.  The pool holds the pointers handed back to it.  \<^verbatim>\<open>sync.Pool.Get\<close>
  may return any item it holds, or ignore them and call \<^verbatim>\<open>New\<close>; the argument
  \<open>pick\<close> is that choice (\<open>Some i\<close> takes the item at position \<open>i\<close> when there is
  one, anything else calls \<^verbatim>\<open>New\<close>).  Every item was put as a \<^verbatim>\<open>*LargeStruct\<close>, so
  the type assertion in useSyncPool cannot fail.
\<close>

record LargeStruct =
  data :: "int list"

definition zero_LargeStruct :: LargeStruct where
  "zero_LargeStruct = \<lparr>data = replicate 3000 0\<rparr>"

record obj_store =
  objs :: "nat \<Rightarrow> LargeStruct"
  next_obj :: nat

type_synonym LargeStruct_ptr = "nat option"

type_synonym pool = "LargeStruct_ptr list"

definition largeStructPool_New :: "obj_store \<Rightarrow> LargeStruct_ptr \<times> obj_store" where
  "largeStructPool_New st =
     (let a = next_obj st
      in (Some a, st\<lparr>objs := (objs st)(a := zero_LargeStruct), next_obj := Suc a\<rparr>))"

definition pool_Get ::
  "nat option \<Rightarrow> obj_store \<Rightarrow> pool \<Rightarrow> LargeStruct_ptr \<times> obj_store \<times> pool" where
  "pool_Get pick st pl =
     (case pick of
        None \<Rightarrow> (let (x, st') = largeStructPool_New st in (x, st', pl))
      | Some i \<Rightarrow>
          if i < length pl then (pl ! i, st, take i pl @ drop (Suc i) pl)
          else (let (x, st') = largeStructPool_New st in (x, st', pl)))"

definition pool_Put :: "pool \<Rightarrow> LargeStruct_ptr \<Rightarrow> pool" where
  "pool_Put pl x = pl @ [x]"

definition useSyncPool ::
  "nat option \<Rightarrow> obj_store \<Rightarrow> pool \<Rightarrow> panic + (LargeStruct_ptr \<times> obj_store \<times> pool)" where
  "useSyncPool pick st pl =
     (let (obj, st1, pl1) = pool_Get pick st pl
      in case obj of
           None \<Rightarrow> Inl NilDereference
         | Some a \<Rightarrow> Inr (Some a, st1\<lparr>objs := (objs st1)(a := zero_LargeStruct)\<rparr>, pl1))"

definition returnToPool :: "pool \<Rightarrow> LargeStruct_ptr \<Rightarrow> pool" where
  "returnToPool pl obj = pool_Put pl obj"

text \<open>
  \<open>nil_picked\<close>: the choice \<open>pick\<close> takes an item of the pool, and that item is a nil
  pointer.
\<close>

definition nil_picked :: "nat option \<Rightarrow> pool \<Rightarrow> bool" where
  "nil_picked pick pl =
     (case pick of None \<Rightarrow> False | Some i \<Rightarrow> i < length pl \<and> pl ! i = None)"

section \<open>Channels (functions.go, case 7)\<close>

text \<open>
  A channel as a send sees it: its capacity, the values buffered, whether it is closed,
  and how many goroutines are blocked receiving from it.  \<open>chansend\<close> follows the
  language's rules for \<^verbatim>\<open>ch <- v\<close>: a nil channel blocks forever, a closed channel
  panics, a waiting receiver takes the value at once, a free buffer slot stores it, and
  otherwise the sender blocks.
\<close>

record chan =
  chan_cap :: nat
  chan_buf :: "int list"
  chan_closed :: bool
  recv_waiting :: nat

datatype send_outcome = Completed chan | Blocks | Panics panic

definition chansend :: "chan option \<Rightarrow> int \<Rightarrow> send_outcome" where
  "chansend ch v =
     (case ch of
        None \<Rightarrow> Blocks
      | Some c \<Rightarrow>
          if chan_closed c then Panics SendOnClosedChannel
          else if 0 < recv_waiting c then Completed (c\<lparr>recv_waiting := recv_waiting c - 1\<rparr>)
          else if length (chan_buf c) < chan_cap c
            then Completed (c\<lparr>chan_buf := chan_buf c @ [v]\<rparr>)
          else Blocks)"

definition completes :: "send_outcome \<Rightarrow> bool" where
  "completes r = (case r of Completed _ \<Rightarrow> True | Blocks \<Rightarrow> False | Panics _ \<Rightarrow> False)"

definition sendToChannel :: "chan option \<Rightarrow> send_outcome" where
  "sendToChannel ch = (let x = 42 in chansend ch x)"

section \<open>The other example functions\<close>

text \<open>
  Arrays are lists; \<^verbatim>\<open>range\<close> over an array runs over its length, and an index
  expression is checked against it.  \<open>copy_list\<close> is the built-in \<^verbatim>\<open>copy\<close>: it
  overwrites the front of the destination with as many elements as both sides have.
  A closure is the function it denotes, and an \<^verbatim>\<open>interface{}\<close> holding an
  \<^verbatim>\<open>int\<close> is \<open>BoxedInt\<close>.  A \<^verbatim>\<open>map[string]*int\<close> is \<open>None\<close> (the nil map) or
  \<open>Some\<close> table of entries.
\<close>

type_synonym int64 = "64 word"

definition array_get :: "'a list \<Rightarrow> int \<Rightarrow> panic + 'a" where
  "array_get xs i =
     (if 0 \<le> i \<and> i < int (length xs) then Inr (xs ! nat i) else Inl IndexOutOfRange)"

definition array_set :: "'a list \<Rightarrow> int \<Rightarrow> 'a \<Rightarrow> panic + 'a list" where
  "array_set xs i v =
     (if 0 \<le> i \<and> i < int (length xs) then Inr (xs[nat i := v]) else Inl IndexOutOfRange)"

definition copy_list :: "'a list \<Rightarrow> 'a list \<Rightarrow> 'a list" where
  "copy_list dst src =
     (let k = min (length dst) (length src) in take k src @ drop k dst)"

definition returnLargePointer :: "obj_store \<Rightarrow> LargeStruct_ptr \<times> obj_store" where
  "returnLargePointer st =
     (let s = next_obj st
      in (Some s, st\<lparr>objs := (objs st)(s := zero_LargeStruct), next_obj := Suc s\<rparr>))"

definition returnLargeValue :: LargeStruct where
  "returnLargeValue = (let s = zero_LargeStruct in s)"

datatype interface = BoxedInt int

definition assignToInterface :: interface where
  "assignToInterface = (let x = 42 in BoxedInt x)"

definition createClosure :: "unit \<Rightarrow> int" where
  "createClosure = (let x = 42 in (\<lambda>_. x))"

definition assignToMap ::
  "int_store \<Rightarrow> (string \<rightharpoonup> int_ptr) option
     \<Rightarrow> panic + ((string \<rightharpoonup> int_ptr) \<times> int_store)" where
  "assignToMap st m =
     (let x = next_cell st;
          st' = st\<lparr>cells := (cells st)(x := 42), next_cell := Suc x\<rparr>
      in case m of
           None \<Rightarrow> Inl AssignToNilMap
         | Some entries \<Rightarrow> Inr (entries(''key'' \<mapsto> Some x), st'))"

text \<open>
  \<^verbatim>\<open>result.data[i] = v\<close> through a \<^verbatim>\<open>*LargeStruct\<close>.  The array has 3000 entries by
  its type, so \<^verbatim>\<open>range result.data\<close> does not touch the pointer; the assignment
  does.
\<close>

definition set_data ::
  "obj_store \<Rightarrow> LargeStruct_ptr \<Rightarrow> int \<Rightarrow> int \<Rightarrow> panic + obj_store" where
  "set_data st result i v =
     (case result of
        None \<Rightarrow> Inl NilDereference
      | Some a \<Rightarrow>
          if 0 \<le> i \<and> i < 3000
          then Inr (st\<lparr>objs := (objs st)
                      (a := (objs st a)\<lparr>data := (data (objs st a))[nat i := v]\<rparr>)\<rparr>)
          else Inl IndexOutOfRange)"

function setLargeStructViaPointer_loop ::
  "obj_store \<Rightarrow> LargeStruct_ptr \<Rightarrow> int \<Rightarrow> panic + obj_store" where
  "setLargeStructViaPointer_loop st result i =
     (if i < 3000
      then (case set_data st result i i of
              Inl e \<Rightarrow> Inl e
            | Inr st' \<Rightarrow> setLargeStructViaPointer_loop st' result (i + 1))
      else Inr st)"
  by pat_completeness auto
termination
  by (relation "measure (\<lambda>(st, r, i). nat (3000 - i))") auto

definition setLargeStructViaPointer :: "obj_store \<Rightarrow> LargeStruct_ptr \<Rightarrow> panic + obj_store" where
  "setLargeStructViaPointer st result = setLargeStructViaPointer_loop st result 0"

definition stackFriendlyComputation :: int where
  "stackFriendlyComputation = (let x = 42; y = 24 in x + y)"

function processValueSemantics_loop :: "int64 list \<Rightarrow> int \<Rightarrow> int \<Rightarrow> panic + int64 list" where
  "processValueSemantics_loop dat i n =
     (if i < n
      then (case array_get dat i of
              Inl e \<Rightarrow> Inl e
            | Inr v \<Rightarrow>
                (case array_set dat i (v * 2) of
                   Inl e \<Rightarrow> Inl e
                 | Inr dat' \<Rightarrow> processValueSemantics_loop dat' (i + 1) n))
      else Inr dat)"
  by pat_completeness auto
termination
  by (relation "measure (\<lambda>(d, i, n). nat (n - i))") auto

definition processValueSemantics :: "int64 list \<Rightarrow> panic + int64 list" where
  "processValueSemantics dat = processValueSemantics_loop dat 0 (int (length dat))"

definition specificTypeProcessing :: "int64 \<Rightarrow> int64" where
  "specificTypeProcessing x = x * 2"

function fixedArrayProcessing_loop :: "int list \<Rightarrow> int \<Rightarrow> int \<Rightarrow> panic + int list" where
  "fixedArrayProcessing_loop arr i n =
     (if i < n
      then (case array_set arr i (i * i) of
              Inl e \<Rightarrow> Inl e
            | Inr arr' \<Rightarrow> fixedArrayProcessing_loop arr' (i + 1) n)
      else Inr arr)"
  by pat_completeness auto
termination
  by (relation "measure (\<lambda>(a, i, n). nat (n - i))") auto

definition fixedArrayProcessing :: "panic + int list" where
  "fixedArrayProcessing =
     (let arr = replicate 10 0 in fixedArrayProcessing_loop arr 0 (int (length arr)))"

definition noClosureCapture :: "unit \<Rightarrow> int" where
  "noClosureCapture = (\<lambda>_. 42)"

definition localVariableProcessing :: "int \<times> int \<times> int" where
  "localVariableProcessing =
     (let a = 1; b = 2; c = 3; a = a * 2; b = b * 3; c = c * 4 in (a, b, c))"

definition directValueAccess :: "int64 list \<Rightarrow> int64" where
  "directValueAccess dat = (let sum = 0 in fold (\<lambda>v sum. sum + v) dat sum)"

definition inlineableFunction :: "int64 \<Rightarrow> int64" where
  "inlineableFunction x = x * 2"

definition stackFriendlyStringBuild :: string where
  "stackFriendlyStringBuild =
     (let prefix = ''Hello''; suffix = ''World'' in prefix @ '' '' @ suffix)"

definition copy_i :: "int_slice \<Rightarrow> int_slice \<Rightarrow> int_slice" where
  "copy_i dst src =
     dst\<lparr>backing := copy_list (elems_i dst) (elems_i src) @ drop (len_i dst) (backing dst)\<rparr>"

definition copyInsteadOfNew :: "nat \<Rightarrow> int_slice \<Rightarrow> panic + int_slice" where
  "copyInsteadOfNew maxlen src =
     (case makeslice maxlen (int (len_i src)) of
        Inl e \<Rightarrow> Inl e
      | Inr dst \<Rightarrow> Inr (copy_i dst src))"

record StackFriendlyStruct =
  Data :: "int list"
  Name :: "byte list"

function createStackFriendlyStruct_loop ::
  "StackFriendlyStruct \<Rightarrow> int \<Rightarrow> int \<Rightarrow> panic + StackFriendlyStruct" where
  "createStackFriendlyStruct_loop s i n =
     (if i < n
      then (case array_set (Data s) i i of
              Inl e \<Rightarrow> Inl e
            | Inr d \<Rightarrow> createStackFriendlyStruct_loop (s\<lparr>Data := d\<rparr>) (i + 1) n)
      else Inr s)"
  by pat_completeness auto
termination
  by (relation "measure (\<lambda>(s, i, n). nat (n - i))") auto

definition createStackFriendlyStruct :: "panic + StackFriendlyStruct" where
  "createStackFriendlyStruct =
     (let s = \<lparr>Data = replicate 10 0, Name = replicate 32 0\<rparr>
      in case createStackFriendlyStruct_loop s 0 (int (length (Data s))) of
           Inl e \<Rightarrow> Inl e
         | Inr s' \<Rightarrow>
             Inr (s'\<lparr>Name := copy_list (Name s')
                               (map (\<lambda>c. of_nat (of_char c)) ''example'')\<rparr>))"

definition interfaceBoxing :: "int \<Rightarrow> interface" where
  "interfaceBoxing x = BoxedInt x"

definition closureCapture :: "unit \<Rightarrow> int" where
  "closureCapture = (let x = 42 in (\<lambda>_. x))"

section \<open>Calling any example function\<close>

text \<open>
  One constructor for each function of the two source files, with its arguments and the
  memory it works on.  \<open>run_example\<close> calls the function and keeps only how the call
  ended.  A function whose body has no operation that can panic or block is a total
  function of the model; \<open>of_value\<close> marks that its call returns.  \<open>maxlen\<close> and
  \<open>growcap\<close> are the run time's largest slice length and its growth policy.

  \<open>exceptional_input\<close> lists the calls that do not return: a size that
  \<^verbatim>\<open>make\<close> or a slice expression refuses, a nil pointer, receiver or map that is
  written through, a channel that cannot take the value, a pool that hands out a nil
  pointer, and a source slice longer than the run time allocates (no slice that exists
  is).
\<close>

datatype example_call =
    Call_returnPointer int_store
  | Call_returnValue
  | Call_returnLargePointer obj_store
  | Call_returnLargeValue
  | Call_assignToInterface
  | Call_createSlice int
  | Call_createClosure
  | Call_sendToChannel "chan option"
  | Call_assignToMap int_store "(string \<rightharpoonup> int_ptr) option"
  | Call_setValueViaPointer int_store int_ptr
  | Call_setLargeStructViaPointer obj_store LargeStruct_ptr
  | Call_initSliceViaPointer "int_slice option" int
  | Call_stackFriendlyComputation
  | Call_processValueSemantics "int64 list"
  | Call_specificTypeProcessing int64
  | Call_fixedArrayProcessing
  | Call_noClosureCapture
  | Call_localVariableProcessing
  | Call_directValueAccess "int64 list"
  | Call_useSyncPool "nat option" obj_store pool
  | Call_returnToPool pool LargeStruct_ptr
  | Call_inlineableFunction int64
  | Call_NewBufferProcessor heap
  | Call_ProcessData heap "BufferProcessor option" byte_slice
  | Call_stackFriendlyStringBuild
  | Call_preallocatedSlice
  | Call_copyInsteadOfNew int_slice
  | Call_createStackFriendlyStruct
  | Call_useArrayInsteadOfMap int
  | Call_interfaceBoxing int
  | Call_closureCapture
  | Call_sliceGrowth
  | Call_mapLookup int
  | Call_returnLocalPointer int_store

datatype outcome = Returned | Panicked panic | Blocked

definition of_result :: "panic + 'a \<Rightarrow> outcome" where
  "of_result r = (case r of Inl e \<Rightarrow> Panicked e | Inr _ \<Rightarrow> Returned)"

definition of_send :: "send_outcome \<Rightarrow> outcome" where
  "of_send r = (case r of Completed _ \<Rightarrow> Returned | Blocks \<Rightarrow> Blocked | Panics e \<Rightarrow> Panicked e)"

definition of_value :: "'a \<Rightarrow> outcome" where
  "of_value v = Returned"

fun run_example :: "nat \<Rightarrow> (nat \<Rightarrow> nat \<Rightarrow> nat) \<Rightarrow> example_call \<Rightarrow> outcome" where
  "run_example maxlen growcap (Call_returnPointer st) = of_value (returnPointer st)"
| "run_example maxlen growcap Call_returnValue = of_value returnValue"
| "run_example maxlen growcap (Call_returnLargePointer st) = of_value (returnLargePointer st)"
| "run_example maxlen growcap Call_returnLargeValue = of_value returnLargeValue"
| "run_example maxlen growcap Call_assignToInterface = of_value assignToInterface"
| "run_example maxlen growcap (Call_createSlice sz) = of_result (createSlice maxlen sz)"
| "run_example maxlen growcap Call_createClosure = of_value createClosure"
| "run_example maxlen growcap (Call_sendToChannel ch) = of_send (sendToChannel ch)"
| "run_example maxlen growcap (Call_assignToMap st m) = of_result (assignToMap st m)"
| "run_example maxlen growcap (Call_setValueViaPointer st result) =
     of_result (setValueViaPointer st result)"
| "run_example maxlen growcap (Call_setLargeStructViaPointer st result) =
     of_result (setLargeStructViaPointer st result)"
| "run_example maxlen growcap (Call_initSliceViaPointer result sz) =
     of_result (initSliceViaPointer maxlen result sz)"
| "run_example maxlen growcap Call_stackFriendlyComputation = of_value stackFriendlyComputation"
| "run_example maxlen growcap (Call_processValueSemantics dat) =
     of_result (processValueSemantics dat)"
| "run_example maxlen growcap (Call_specificTypeProcessing x) =
     of_value (specificTypeProcessing x)"
| "run_example maxlen growcap Call_fixedArrayProcessing = of_result fixedArrayProcessing"
| "run_example maxlen growcap Call_noClosureCapture = of_value noClosureCapture"
| "run_example maxlen growcap Call_localVariableProcessing = of_value localVariableProcessing"
| "run_example maxlen growcap (Call_directValueAccess dat) = of_value (directValueAccess dat)"
| "run_example maxlen growcap (Call_useSyncPool pick st pl) = of_result (useSyncPool pick st pl)"
| "run_example maxlen growcap (Call_returnToPool pl obj) = of_value (returnToPool pl obj)"
| "run_example maxlen growcap (Call_inlineableFunction x) = of_value (inlineableFunction x)"
| "run_example maxlen growcap (Call_NewBufferProcessor h) = of_value (NewBufferProcessor h)"
| "run_example maxlen growcap (Call_ProcessData h bp dat) =
     of_result (ProcessData growcap h bp dat)"
| "run_example maxlen growcap Call_stackFriendlyStringBuild = of_value stackFriendlyStringBuild"
| "run_example maxlen growcap Call_preallocatedSlice = of_value (preallocatedSlice growcap)"
| "run_example maxlen growcap (Call_copyInsteadOfNew src) =
     of_result (copyInsteadOfNew maxlen src)"
| "run_example maxlen growcap Call_createStackFriendlyStruct =
     of_result createStackFriendlyStruct"
| "run_example maxlen growcap (Call_useArrayInsteadOfMap key) =
     of_value (useArrayInsteadOfMap key)"
| "run_example maxlen growcap (Call_interfaceBoxing x) = of_value (interfaceBoxing x)"
| "run_example maxlen growcap Call_closureCapture = of_value closureCapture"
| "run_example maxlen growcap Call_sliceGrowth = of_value (sliceGrowth growcap)"
| "run_example maxlen growcap (Call_mapLookup key) = of_value (mapLookup key)"
| "run_example maxlen growcap (Call_returnLocalPointer st) = of_value (returnLocalPointer st)"

fun exceptional_input :: "nat \<Rightarrow> example_call \<Rightarrow> bool" where
  "exceptional_input maxlen (Call_createSlice sz) = (sz < 0 \<or> int maxlen < sz)"
| "exceptional_input maxlen (Call_initSliceViaPointer result sz) =
     (case result of
        None \<Rightarrow> True
      | Some s \<Rightarrow> sz < 0 \<or> (int (cap_i s) < sz \<and> int maxlen < sz))"
| "exceptional_input maxlen (Call_setValueViaPointer st result) = (result = None)"
| "exceptional_input maxlen (Call_setLargeStructViaPointer st result) = (result = None)"
| "exceptional_input maxlen (Call_ProcessData h bp dat) = (bp = None)"
| "exceptional_input maxlen (Call_assignToMap st m) = (m = None)"
| "exceptional_input maxlen (Call_sendToChannel ch) =
     (case ch of
        None \<Rightarrow> True
      | Some c \<Rightarrow>
          chan_closed c \<or> (recv_waiting c = 0 \<and> chan_cap c \<le> length (chan_buf c)))"
| "exceptional_input maxlen (Call_useSyncPool pick st pl) = nil_picked pick pl"
| "exceptional_input maxlen (Call_copyInsteadOfNew src) = (maxlen < len_i src)"
| "exceptional_input maxlen _ = False"

declare initSlice_loop.simps [simp del]
declare preallocatedSlice_loop.simps [simp del]
declare sliceGrowth_loop.simps [simp del]

declare ProcessData_loop.simps [simp del]
declare setLargeStructViaPointer_loop.simps [simp del]
declare processValueSemantics_loop.simps [simp del]
declare fixedArrayProcessing_loop.simps [simp del]
declare createStackFriendlyStruct_loop.simps [simp del]

section \<open>Results\<close>

subsection \<open>Lookup\<close>

lemma small_key_cases:
  fixes key :: int
  assumes "0 \<le> key" and "key < 4"
  shows "key = 0 \<or> key = 1 \<or> key = 2 \<or> key = 3"
  using assms by arith

lemma mapLookup_table:
  "mapLookup key =
     (if key = 0 then ''zero'' else if key = 1 then ''one''
      else if key = 2 then ''two'' else if key = 3 then ''three'' else ''unknown'')"
  by (simp add: mapLookup_def)

lemma useArrayInsteadOfMap_table:
  "useArrayInsteadOfMap key =
     (if key = 0 then ''zero'' else if key = 1 then ''one''
      else if key = 2 then ''two'' else if key = 3 then ''three'' else ''unknown'')"
proof (cases "0 \<le> key \<and> key < 4")
  case True
  then have "key = 0 \<or> key = 1 \<or> key = 2 \<or> key = 3"
    by (simp add: small_key_cases)
  then show ?thesis
    by (auto simp: useArrayInsteadOfMap_def)
next
  case False
  then show ?thesis
    by (auto simp: useArrayInsteadOfMap_def)
qed

text \<open>
  C3.  For every integer key the four-entry-table lookup returns the same string as the
  map lookup: "zero", "one", "two", "three" for the keys 0 to 3 and "unknown" for every
  other key.
\<close>

theorem array_lookup_equals_map_lookup:
  "useArrayInsteadOfMap key = mapLookup key \<and>
   mapLookup key =
     (if key = 0 then ''zero'' else if key = 1 then ''one''
      else if key = 2 then ''two'' else if key = 3 then ''three'' else ''unknown'')"
  by (simp only: mapLookup_table useArrayInsteadOfMap_table)

subsection \<open>Pointers to integers\<close>

text \<open>
  C5.  setValueViaPointer stores through the pointer it is given and allocates nothing:
  for every non-nil reference the call returns, the cell holds 42 afterwards, every other
  cell is as before and no new cell exists.
\<close>

theorem setValueViaPointer_stores_42:
  "setValueViaPointer st (Some a) =
     Inr (st\<lparr>cells := (cells st)(a := 42)\<rparr>) \<and>
   deref (st\<lparr>cells := (cells st)(a := 42)\<rparr>) (Some a) = Inr 42 \<and>
   next_cell (st\<lparr>cells := (cells st)(a := 42)\<rparr>) = next_cell st"
  by (simp add: setValueViaPointer_def deref_def)

text \<open>
  C6.  returnValue returns 42, and dereferencing the pointer returned by returnPointer or
  by returnLocalPointer, in the store the call leaves, gives the same value.
\<close>

theorem pointer_results_equal_value_result:
  "returnValue = 42 \<and>
   deref (snd (returnPointer st)) (fst (returnPointer st)) = Inr returnValue \<and>
   deref (snd (returnLocalPointer st)) (fst (returnLocalPointer st)) = Inr returnValue"
  by (simp add: returnValue_def returnPointer_def returnLocalPointer_def deref_def Let_def)

subsection \<open>Slices of integers\<close>

lemma append_i_in_place:
  "len_i s < cap_i s \<Longrightarrow>
     append_i g s v = \<lparr>backing = (backing s)[len_i s := v], len_i = Suc (len_i s)\<rparr>"
  by (simp add: append_i_def Let_def)

lemma append_i_grow:
  "len_i s = cap_i s \<Longrightarrow>
     append_i g s v =
       \<lparr>backing = backing s @ [v] @
          replicate (max (Suc (len_i s)) (g (cap_i s) (Suc (len_i s))) - Suc (len_i s)) 0,
        len_i = Suc (len_i s)\<rparr>"
  by (simp add: append_i_def Let_def elems_i_def cap_i_def)

lemma wf_append_i: "wf_i s \<Longrightarrow> wf_i (append_i g s v)"
proof (cases "len_i s < cap_i s")
  case True
  then show ?thesis
    by (simp add: append_i_in_place wf_i_def cap_i_def)
next
  case False
  assume "wf_i s"
  with False have "len_i s = cap_i s" by (simp add: wf_i_def)
  then show ?thesis
    by (simp add: append_i_grow wf_i_def cap_i_def)
qed

lemma elems_append_i: "wf_i s \<Longrightarrow> elems_i (append_i g s v) = elems_i s @ [v]"
proof (cases "len_i s < cap_i s")
  case True
  then show ?thesis
    by (simp add: append_i_in_place elems_i_def cap_i_def take_Suc_conv_app_nth)
next
  case False
  assume "wf_i s"
  with False have "len_i s = cap_i s" by (simp add: wf_i_def)
  then show ?thesis
    by (simp add: append_i_grow elems_i_def cap_i_def)
qed

lemma len_elems_i: "wf_i s \<Longrightarrow> length (elems_i s) = len_i s"
  by (simp add: wf_i_def elems_i_def cap_i_def)

lemma preallocatedSlice_loop_elems:
  "wf_i s \<Longrightarrow> wf_i (preallocatedSlice_loop g s i) \<and>
     elems_i (preallocatedSlice_loop g s i) = elems_i s @ map (\<lambda>k. k * k) [i..99]"
proof (induction g s i rule: preallocatedSlice_loop.induct)
  case (1 g s i)
  show ?case
  proof (cases "i < 100")
    case True
    then have u: "[i..99] = i # [i + 1..99]" by (simp add: upto_rec1)
    from True 1 show ?thesis
      by (simp add: preallocatedSlice_loop.simps [of g s i] wf_append_i elems_append_i u)
  next
    case False
    with 1 show ?thesis
      by (simp add: preallocatedSlice_loop.simps [of g s i])
  qed
qed

lemma sliceGrowth_loop_elems:
  "wf_i s \<Longrightarrow> wf_i (sliceGrowth_loop g s i) \<and>
     elems_i (sliceGrowth_loop g s i) = elems_i s @ map (\<lambda>k. k * k) [i..99]"
proof (induction g s i rule: sliceGrowth_loop.induct)
  case (1 g s i)
  show ?case
  proof (cases "i < 100")
    case True
    then have u: "[i..99] = i # [i + 1..99]" by (simp add: upto_rec1)
    from True 1 show ?thesis
      by (simp add: sliceGrowth_loop.simps [of g s i] wf_append_i elems_append_i u)
  next
    case False
    with 1 show ?thesis
      by (simp add: sliceGrowth_loop.simps [of g s i])
  qed
qed

lemma index_i_elems:
  "wf_i s \<Longrightarrow> 0 \<le> i \<Longrightarrow> i < int (len_i s) \<Longrightarrow> index_i s i = Inr (elems_i s ! nat i)"
  by (simp add: index_i_def elems_i_def wf_i_def)

lemma preallocatedSlice_elems:
  "wf_i (preallocatedSlice g) \<and> elems_i (preallocatedSlice g) = map (\<lambda>k. k * k) [0..99]"
  using preallocatedSlice_loop_elems [of "make_ints 0 100" g 0]
  by (simp add: preallocatedSlice_def wf_i_def make_ints_def cap_i_def elems_i_def)

lemma sliceGrowth_elems:
  "wf_i (sliceGrowth g) \<and> elems_i (sliceGrowth g) = map (\<lambda>k. k * k) [0..99]"
  using sliceGrowth_loop_elems [of "\<lparr>backing = [], len_i = 0\<rparr>" g 0]
  by (simp add: sliceGrowth_def wf_i_def cap_i_def elems_i_def)

lemma squares_len:
  assumes "wf_i s" and "elems_i s = map (\<lambda>k. k * k) [0..99]"
  shows "len_i s = 100"
  using len_elems_i [OF assms(1)] assms(2) by simp

lemma squares_index:
  assumes "wf_i s" and "elems_i s = map (\<lambda>k. k * k) [0..99]" and "0 \<le> i" and "i < 100"
  shows "index_i s i = Inr (i * i)"
proof -
  have l: "len_i s = 100" using assms(1,2) by (rule squares_len)
  have "nat i < length [0..99]" using assms(3,4) by simp
  moreover have "[0..99] ! nat i = i" using assms(3,4) by (simp add: nth_upto)
  ultimately have "elems_i s ! nat i = i * i" using assms(2) by simp
  then show ?thesis using index_i_elems [OF assms(1,3)] l assms(4) by simp
qed

text \<open>
  C4.  preallocatedSlice and sliceGrowth both return a slice of length 100 whose element
  at every index i is i * i, whatever the growth policy of append; so the two hold the
  same elements.
\<close>

theorem preallocated_and_growing_slices_agree:
  "len_i (preallocatedSlice g) = 100 \<and> len_i (sliceGrowth g) = 100 \<and>
   elems_i (preallocatedSlice g) = elems_i (sliceGrowth g) \<and>
   (\<forall>i. 0 \<le> i \<and> i < 100 \<longrightarrow>
      index_i (preallocatedSlice g) i = Inr (i * i) \<and>
      index_i (sliceGrowth g) i = Inr (i * i))"
  using preallocatedSlice_elems [of g] sliceGrowth_elems [of g]
  by (simp add: squares_len squares_index)

theorem preallocated_and_growing_slices_agree_witness:
  "(0::int) \<le> 7 \<and> (7::int) < 100 \<and>
   index_i (preallocatedSlice (\<lambda>c n. 2 * c)) 7 = Inr 49 \<and>
   index_i (sliceGrowth (\<lambda>c n. 2 * c)) 7 = Inr 49"
  using preallocated_and_growing_slices_agree [of "\<lambda>c n. 2 * c"] by simp


lemma initSlice_loop_result:
  "0 \<le> i \<Longrightarrow> n \<le> int (len_i s) \<Longrightarrow> wf_i s \<Longrightarrow>
     \<exists>s'. initSlice_loop s i n = Inr s' \<and> len_i s' = len_i s \<and>
          length (backing s') = length (backing s) \<and>
          (\<forall>j < length (backing s).
             backing s' ! j = (if i \<le> int j \<and> int j < n then int j else backing s ! j))"
proof (induction s i n rule: initSlice_loop.induct)
  case (1 s i n)
  show ?case
  proof (cases "i < n")
    case False
    then show ?thesis
      by (simp add: initSlice_loop.simps [of s i n])
  next
    case True
    define t where "t = s\<lparr>backing := (backing s)[nat i := i]\<rparr>"
    have inb: "nat i < length (backing s)"
      using True "1.prems" by (simp add: wf_i_def cap_i_def)
    have set: "set_index_i s i i = Inr t"
      using True "1.prems" by (simp add: set_index_i_def t_def)
    have "0 \<le> i + 1" "n \<le> int (len_i t)" "wf_i t"
      using "1.prems" by (simp_all add: t_def wf_i_def cap_i_def)
    from "1.IH" [OF True set this]
    obtain s' where s': "initSlice_loop t (i + 1) n = Inr s'" "len_i s' = len_i t"
      "length (backing s') = length (backing t)"
      "\<forall>j < length (backing t).
         backing s' ! j = (if i + 1 \<le> int j \<and> int j < n then int j else backing t ! j)"
      by blast
    have step: "initSlice_loop s i n = initSlice_loop t (i + 1) n"
      using True set by (simp add: initSlice_loop.simps [of s i n])
    have "\<forall>j < length (backing s).
            backing s' ! j = (if i \<le> int j \<and> int j < n then int j else backing s ! j)"
    proof (intro allI impI)
      fix j assume j: "j < length (backing s)"
      then have "backing s' ! j = (if i + 1 \<le> int j \<and> int j < n then int j else backing t ! j)"
        using s'(4) by (simp add: t_def)
      moreover have "backing t ! j = (if j = nat i then i else backing s ! j)"
        using j by (simp add: t_def nth_list_update)
      ultimately show "backing s' ! j = (if i \<le> int j \<and> int j < n then int j else backing s ! j)"
        using True "1.prems"(1) by auto
    qed
    with s' step show ?thesis
      by (simp add: t_def)
  qed
qed

lemma initSlice_loop_elems:
  assumes "wf_i s"
  shows "\<exists>s'. initSlice_loop s 0 (int (len_i s)) = Inr s' \<and> len_i s' = len_i s \<and>
           cap_i s' = cap_i s \<and> elems_i s' = map int [0..<len_i s]"
proof -
  from initSlice_loop_result [of 0 "int (len_i s)" s] assms
  obtain s' where s': "initSlice_loop s 0 (int (len_i s)) = Inr s'" "len_i s' = len_i s"
      "length (backing s') = length (backing s)"
      "\<forall>j < length (backing s).
         backing s' ! j = (if 0 \<le> int j \<and> int j < int (len_i s) then int j else backing s ! j)"
    by auto
  have le: "len_i s \<le> length (backing s)"
    using assms by (simp add: wf_i_def cap_i_def)
  have "elems_i s' = map int [0..<len_i s]"
  proof (rule nth_equalityI)
    show "length (elems_i s') = length (map int [0..<len_i s])"
      using s'(2,3) le by (simp add: elems_i_def)
  next
    fix j assume "j < length (elems_i s')"
    then have j: "j < len_i s" using s'(2,3) le by (simp add: elems_i_def)
    then have "backing s' ! j = int j" using s'(4) le by simp
    then show "elems_i s' ! j = map int [0..<len_i s] ! j"
      using j s'(2) by (simp add: elems_i_def)
  qed
  with s' show ?thesis by (simp add: cap_i_def)
qed

lemma createSlice_result:
  "0 \<le> sz \<Longrightarrow> sz \<le> int maxlen \<Longrightarrow>
     \<exists>s. createSlice maxlen sz = Inr s \<and> len_i s = nat sz \<and> cap_i s = nat sz \<and>
         elems_i s = replicate (nat sz) 0"
  by (simp add: createSlice_def makeslice_def make_ints_def cap_i_def elems_i_def)

lemma createSlice_returns_iff:
  "returns (createSlice maxlen sz) \<longleftrightarrow> 0 \<le> sz \<and> sz \<le> int maxlen"
  by (auto simp: returns_def createSlice_def makeslice_def)

lemma initSliceViaPointer_reuse:
  assumes "0 \<le> sz" and "sz \<le> int (cap_i s)"
  shows "\<exists>s'. initSliceViaPointer maxlen (Some s) sz = Inr s' \<and> len_i s' = nat sz \<and>
           cap_i s' = cap_i s \<and> elems_i s' = map int [0..<nat sz]"
proof -
  define t where "t = s\<lparr>len_i := nat sz\<rparr>"
  have "wf_i t" using assms by (simp add: t_def wf_i_def cap_i_def)
  from initSlice_loop_elems [OF this]
  show ?thesis using assms
    by (simp add: initSliceViaPointer_def slice_to_def t_def cap_i_def)
qed

lemma initSliceViaPointer_fresh:
  assumes "int (cap_i s) < sz" and "sz \<le> int maxlen"
  shows "\<exists>s'. initSliceViaPointer maxlen (Some s) sz = Inr s' \<and> len_i s' = nat sz \<and>
           cap_i s' = nat sz \<and> elems_i s' = map int [0..<nat sz]"
proof -
  define t where "t = make_ints (nat sz) (nat sz)"
  have "wf_i t" by (simp add: t_def wf_i_def cap_i_def make_ints_def)
  from initSlice_loop_elems [OF this]
  show ?thesis using assms
    by (simp add: initSliceViaPointer_def makeslice_def t_def cap_i_def make_ints_def)
qed

lemma initSliceViaPointer_negative:
  "sz < 0 \<Longrightarrow> initSliceViaPointer maxlen (Some s) sz = Inl SliceBoundsOutOfRange"
  by (simp add: initSliceViaPointer_def slice_to_def)

lemma initSliceViaPointer_too_large:
  "int (cap_i s) < sz \<Longrightarrow> int maxlen < sz \<Longrightarrow>
     initSliceViaPointer maxlen (Some s) sz = Inl MakeSliceLenOutOfRange"
  by (simp add: initSliceViaPointer_def makeslice_def)

lemma initSliceViaPointer_returns_iff:
  "returns (initSliceViaPointer maxlen (Some s) sz) \<longleftrightarrow>
     0 \<le> sz \<and> (sz \<le> int (cap_i s) \<or> sz \<le> int maxlen)"
proof (cases "sz < 0")
  case True
  then show ?thesis by (simp add: initSliceViaPointer_negative returns_def)
next
  case nonneg: False
  show ?thesis
  proof (cases "sz \<le> int (cap_i s)")
    case True
    with nonneg initSliceViaPointer_reuse [of sz s maxlen] show ?thesis
      by (auto simp: returns_def)
  next
    case big: False
    show ?thesis
    proof (cases "sz \<le> int maxlen")
      case True
      with big nonneg initSliceViaPointer_fresh [of s sz maxlen] show ?thesis
        by (auto simp: returns_def)
    next
      case False
      with big nonneg show ?thesis
        by (simp add: initSliceViaPointer_too_large returns_def)
    qed
  qed
qed

subsection \<open>BufferProcessor\<close>

lemma flip_flip: "(b XOR 0xFF) XOR 0xFF = (b::byte)"
  by (simp add: xor.assoc)

lemma length_write_at:
  "p + length ys \<le> length xs \<Longrightarrow> length (write_at xs p ys) = length xs"
  by (simp add: write_at_def)

lemma write_at_empty: "write_at xs p [] = xs"
  by (simp add: write_at_def)

lemma take_drop_write_at:
  assumes "k + l + length ys \<le> length xs"
  shows "take (l + length ys) (drop k (write_at xs (k + l) ys)) = take l (drop k xs) @ ys"
proof -
  have "drop k (take (k + l) xs) = take l (drop k xs)"
    by (simp add: drop_take)
  moreover have "length (take l (drop k xs)) = l"
    using assms by simp
  ultimately show ?thesis
    using assms by (simp add: write_at_def)
qed

lemma length_bytes: "wf_b h s \<Longrightarrow> length (bytes h s) = len_b s"
  by (auto simp: wf_b_def bytes_def)

lemma wf_b_heap_mono:
  assumes "wf_b h t"
    and "next_array h \<le> next_array h'"
    and "\<And>a. a < next_array h \<Longrightarrow> length (arrays h' a) = length (arrays h a)"
  shows "wf_b h' t"
  using assms by (auto simp: wf_b_def)

lemma wf_b_len: "wf_b h s \<Longrightarrow> n \<le> cap_b s \<Longrightarrow> wf_b h (s\<lparr>len_b := n\<rparr>)"
  by (auto simp: wf_b_def)

lemma append_bytes_in_place:
  assumes "wf_b h s" and "wf_b h dat" and "len_b s + len_b dat \<le> cap_b s"
  shows "append_bytes g h s dat =
           (s\<lparr>len_b := len_b s + len_b dat\<rparr>,
            h\<lparr>arrays := (arrays h)
                 (base s := write_at (arrays h (base s)) (off s + len_b s) (bytes h dat))\<rparr>)"
  using assms by (simp add: append_bytes_def Let_def length_bytes)

lemma append_bytes_grow:
  assumes "wf_b h s" and "wf_b h dat" and "\<not> len_b s + len_b dat \<le> cap_b s"
  shows "append_bytes g h s dat =
           (\<lparr>base = next_array h, off = 0, len_b = len_b s + len_b dat,
             cap_b = max (len_b s + len_b dat) (g (cap_b s) (len_b s + len_b dat))\<rparr>,
            h\<lparr>arrays := (arrays h)
                 (next_array h := bytes h s @ bytes h dat @
                    replicate (max (len_b s + len_b dat) (g (cap_b s) (len_b s + len_b dat))
                                 - (len_b s + len_b dat)) 0),
              next_array := Suc (next_array h)\<rparr>)"
  using assms by (simp add: append_bytes_def Let_def length_bytes)

lemma append_bytes_result:
  assumes s: "wf_b h s" and d: "wf_b h dat"
  shows "\<exists>s' h'. append_bytes g h s dat = (s', h') \<and> wf_b h' s' \<and>
           bytes h' s' = bytes h s @ bytes h dat \<and>
           len_b s' = len_b s + len_b dat \<and>
           (\<forall>t. wf_b h t \<longrightarrow> wf_b h' t) \<and>
           (len_b s + len_b dat \<le> cap_b s \<longrightarrow>
              base s' = base s \<and> off s' = off s \<and> cap_b s' = cap_b s \<and>
              next_array h' = next_array h)"
proof (cases "len_b s + len_b dat \<le> cap_b s")
  case True
  define arr where "arr = arrays h (base s)"
  define h' where "h' = h\<lparr>arrays := (arrays h)
      (base s := write_at arr (off s + len_b s) (bytes h dat))\<rparr>"
  define s' where "s' = s\<lparr>len_b := len_b s + len_b dat\<rparr>"
  have eq: "append_bytes g h s dat = (s', h')"
    using append_bytes_in_place [OF s d True] by (simp add: s'_def h'_def arr_def)
  have lb: "length (bytes h dat) = len_b dat" using d by (rule length_bytes)
  have len: "length (write_at arr (off s + len_b s) (bytes h dat)) = length arr"
  proof (cases "cap_b s = 0")
    case True
    with \<open>len_b s + len_b dat \<le> cap_b s\<close> lb have "bytes h dat = []" by simp
    then show ?thesis by (simp add: write_at_empty)
  next
    case False
    with s True lb have "off s + len_b s + length (bytes h dat) \<le> length arr"
      by (simp add: wf_b_def arr_def)
    then show ?thesis by (rule length_write_at)
  qed
  have lens: "\<And>a. length (arrays h' a) = length (arrays h a)"
    using len by (simp add: h'_def arr_def)
  have mono: "\<forall>t. wf_b h t \<longrightarrow> wf_b h' t"
  proof (intro allI impI)
    fix t assume "wf_b h t"
    then show "wf_b h' t"
      by (rule wf_b_heap_mono) (simp_all add: lens, simp add: h'_def)
  qed
  have "wf_b h' s" using mono s by blast
  then have wf: "wf_b h' s'"
    using True unfolding s'_def by (rule wf_b_len)
  have bytes: "bytes h' s' = bytes h s @ bytes h dat"
  proof (cases "cap_b s = 0")
    case True
    with \<open>len_b s + len_b dat \<le> cap_b s\<close> show ?thesis
      by (simp add: bytes_def s'_def)
  next
    case False
    with s True lb have "off s + len_b s + length (bytes h dat) \<le> length arr"
      by (simp add: wf_b_def arr_def)
    from take_drop_write_at [OF this] lb show ?thesis
      by (simp add: bytes_def s'_def h'_def arr_def)
  qed
  show ?thesis
    using eq wf bytes mono True by (simp add: s'_def h'_def)
next
  case False
  define need where "need = len_b s + len_b dat"
  define newcap where "newcap = max need (g (cap_b s) need)"
  define a where "a = next_array h"
  define s' where "s' = \<lparr>base = a, off = 0, len_b = need, cap_b = newcap\<rparr>"
  define h' where "h' = h\<lparr>arrays := (arrays h)
      (a := bytes h s @ bytes h dat @ replicate (newcap - need) 0), next_array := Suc a\<rparr>"
  have eq: "append_bytes g h s dat = (s', h')"
    using append_bytes_grow [OF s d False]
    by (simp add: s'_def h'_def a_def newcap_def need_def)
  have ls: "length (bytes h s) = len_b s" using s by (rule length_bytes)
  have lb: "length (bytes h dat) = len_b dat" using d by (rule length_bytes)
  have nc: "need \<le> newcap" by (simp add: newcap_def)
  have wf: "wf_b h' s'"
    using ls lb nc by (simp add: wf_b_def s'_def h'_def need_def)
  have arr: "arrays h' a = bytes h s @ bytes h dat @ replicate (newcap - need) 0"
    by (simp add: h'_def)
  have "bytes h' s' = take need (arrays h' a)"
    by (simp add: bytes_def s'_def)
  then have bytes: "bytes h' s' = bytes h s @ bytes h dat"
    using arr ls lb by (simp add: need_def)
  have mono: "\<forall>t. wf_b h t \<longrightarrow> wf_b h' t"
  proof (intro allI impI)
    fix t assume "wf_b h t"
    then show "wf_b h' t"
      by (rule wf_b_heap_mono) (simp_all add: h'_def a_def)
  qed
  show ?thesis
    using eq wf bytes mono False by (simp add: s'_def need_def)
qed

lemma ProcessData_loop_result:
  "0 \<le> i \<Longrightarrow> n \<le> int (len_b s) \<Longrightarrow> wf_b h s \<Longrightarrow>
     \<exists>h'. ProcessData_loop h s i n = Inr h' \<and> next_array h' = next_array h \<and>
          (\<forall>a. a \<noteq> base s \<longrightarrow> arrays h' a = arrays h a) \<and>
          length (arrays h' (base s)) = length (arrays h (base s)) \<and>
          (\<forall>j < length (arrays h (base s)).
             arrays h' (base s) ! j =
               (if int (off s) + i \<le> int j \<and> int j < int (off s) + n
                then arrays h (base s) ! j XOR 0xFF else arrays h (base s) ! j))"
proof (induction h s i n rule: ProcessData_loop.induct)
  case (1 h s i n)
  show ?case
  proof (cases "i < n")
    case False
    then show ?thesis
      by (auto simp: ProcessData_loop.simps [of h s i n])
  next
    case True
    define arr where "arr = arrays h (base s)"
    define k where "k = off s + nat i"
    define v where "v = arr ! k"
    define t where "t = h\<lparr>arrays := (arrays h)(base s := arr[k := v XOR 0xFF])\<rparr>"
    have il: "i < int (len_b s)" using True "1.prems" by simp
    then have "0 < cap_b s" using "1.prems"(1,3) by (auto simp: wf_b_def)
    then have bound: "off s + cap_b s \<le> length arr"
      using "1.prems"(3) by (auto simp: wf_b_def arr_def)
    have "len_b s \<le> cap_b s" using "1.prems"(3) by (simp add: wf_b_def)
    then have kl: "k < length arr"
      using il bound "1.prems"(1) by (simp add: k_def)
    have rd: "index_b h s i = Inr v"
      using il "1.prems"(1) by (simp add: index_b_def v_def k_def arr_def)
    have wr: "set_index_b h s i (v XOR 0xFF) = Inr t"
      using il "1.prems"(1) by (simp add: set_index_b_def t_def k_def arr_def)
    have tarr: "arrays t (base s) = arr[k := v XOR 0xFF]"
      by (simp add: t_def)
    have wft: "wf_b t s"
      using "1.prems"(3) by (rule wf_b_heap_mono) (simp_all add: t_def arr_def)
    have "0 \<le> i + 1" using "1.prems"(1) by simp
    from "1.IH" [OF True rd wr this "1.prems"(2) wft]
    obtain h' where h': "ProcessData_loop t s (i + 1) n = Inr h'"
      "next_array h' = next_array t"
      "\<forall>a. a \<noteq> base s \<longrightarrow> arrays h' a = arrays t a"
      "length (arrays h' (base s)) = length (arrays t (base s))"
      "\<forall>j < length (arrays t (base s)).
         arrays h' (base s) ! j =
           (if int (off s) + (i + 1) \<le> int j \<and> int j < int (off s) + n
            then arrays t (base s) ! j XOR 0xFF else arrays t (base s) ! j)"
      by blast
    have step: "ProcessData_loop h s i n = ProcessData_loop t s (i + 1) n"
      using True rd wr by (simp add: ProcessData_loop.simps [of h s i n])
    have other: "\<forall>a. a \<noteq> base s \<longrightarrow> arrays h' a = arrays h a"
      using h'(3) by (simp add: t_def)
    have len: "length (arrays h' (base s)) = length arr"
      using h'(4) tarr by simp
    have ik: "int k = int (off s) + i"
      using "1.prems"(1) by (simp add: k_def)
    have pt: "\<forall>j < length arr.
        arrays h' (base s) ! j =
          (if int (off s) + i \<le> int j \<and> int j < int (off s) + n
           then arr ! j XOR 0xFF else arr ! j)"
    proof (intro allI impI)
      fix j assume j: "j < length arr"
      then have a: "arrays h' (base s) ! j =
          (if int (off s) + (i + 1) \<le> int j \<and> int j < int (off s) + n
           then arr[k := v XOR 0xFF] ! j XOR 0xFF else arr[k := v XOR 0xFF] ! j)"
        using h'(5) tarr by simp
      show "arrays h' (base s) ! j =
          (if int (off s) + i \<le> int j \<and> int j < int (off s) + n
           then arr ! j XOR 0xFF else arr ! j)"
      proof (cases "j = k")
        case True
        with a kl ik \<open>i < n\<close> show ?thesis by (simp add: v_def)
      next
        case False
        with a j ik show ?thesis by (auto simp: nth_list_update)
      qed
    qed
    show ?thesis
      using step h'(1,2) other len pt by (simp add: arr_def t_def)
  qed
qed

lemma ProcessData_loop_bytes:
  assumes "wf_b h s"
  shows "\<exists>h'. ProcessData_loop h s 0 (int (len_b s)) = Inr h' \<and>
           bytes h' s = map (\<lambda>b. b XOR 0xFF) (bytes h s) \<and>
           (\<forall>t. wf_b h t \<longrightarrow> wf_b h' t)"
proof -
  from ProcessData_loop_result [of 0 "int (len_b s)" s h] assms
  obtain h' where h': "ProcessData_loop h s 0 (int (len_b s)) = Inr h'"
      "next_array h' = next_array h"
      "\<forall>a. a \<noteq> base s \<longrightarrow> arrays h' a = arrays h a"
      "length (arrays h' (base s)) = length (arrays h (base s))"
      "\<forall>j < length (arrays h (base s)).
         arrays h' (base s) ! j =
           (if int (off s) + 0 \<le> int j \<and> int j < int (off s) + int (len_b s)
            then arrays h (base s) ! j XOR 0xFF else arrays h (base s) ! j)"
    by auto
  have lens: "\<And>a. length (arrays h' a) = length (arrays h a)"
    using h'(3,4) by metis
  have mono: "\<forall>t. wf_b h t \<longrightarrow> wf_b h' t"
  proof (intro allI impI)
    fix t assume "wf_b h t"
    then show "wf_b h' t"
      by (rule wf_b_heap_mono) (simp_all add: lens h'(2))
  qed
  have "bytes h' s = map (\<lambda>b. b XOR 0xFF) (bytes h s)"
  proof (rule nth_equalityI)
    show "length (bytes h' s) = length (map (\<lambda>b. b XOR 0xFF) (bytes h s))"
      by (simp add: bytes_def lens)
  next
    fix j assume "j < length (bytes h' s)"
    then have j: "j < len_b s" "off s + j < length (arrays h (base s))"
      by (auto simp: bytes_def lens)
    then have "arrays h' (base s) ! (off s + j) = arrays h (base s) ! (off s + j) XOR 0xFF"
      using h'(5) by simp
    moreover have "off s \<le> length (arrays h (base s))"
      using j(2) by simp
    ultimately show "bytes h' s ! j = map (\<lambda>b. b XOR 0xFF) (bytes h s) ! j"
      using j lens by (simp add: bytes_def)
  qed
  with h'(1) mono show ?thesis by simp
qed

lemma ProcessData_result:
  assumes p: "wf_b h (buffer p)" and d: "wf_b h dat"
  shows "\<exists>r h'. ProcessData g h (Some p) dat = Inr (r, p\<lparr>buffer := r\<rparr>, h') \<and>
           wf_b h' r \<and> len_b r = len_b dat \<and>
           bytes h' r = map (\<lambda>b. b XOR 0xFF) (bytes h dat) \<and>
           (\<forall>t. wf_b h t \<longrightarrow> wf_b h' t) \<and>
           (len_b dat \<le> cap_b (buffer p) \<longrightarrow>
              base r = base (buffer p) \<and> off r = off (buffer p) \<and>
              cap_b r = cap_b (buffer p) \<and> next_array h' = next_array h)"
proof -
  define b0 where "b0 = (buffer p)\<lparr>len_b := 0\<rparr>"
  have sl: "slice_to_b (buffer p) 0 = Inr b0"
    by (simp add: slice_to_b_def b0_def)
  have wf0: "wf_b h b0"
    using p unfolding b0_def by (rule wf_b_len) simp
  from append_bytes_result [OF wf0 d, of g]
  obtain b1 h1 where a: "append_bytes g h b0 dat = (b1, h1)" "wf_b h1 b1"
      "bytes h1 b1 = bytes h b0 @ bytes h dat" "len_b b1 = len_b b0 + len_b dat"
      "\<forall>t. wf_b h t \<longrightarrow> wf_b h1 t"
      "len_b b0 + len_b dat \<le> cap_b b0 \<longrightarrow>
         base b1 = base b0 \<and> off b1 = off b0 \<and> cap_b b1 = cap_b b0 \<and>
         next_array h1 = next_array h"
    by blast
  from ProcessData_loop_bytes [OF a(2)]
  obtain h2 where l: "ProcessData_loop h1 b1 0 (int (len_b b1)) = Inr h2"
      "bytes h2 b1 = map (\<lambda>b. b XOR 0xFF) (bytes h1 b1)"
      "\<forall>t. wf_b h1 t \<longrightarrow> wf_b h2 t"
    by blast
  have n2: "next_array h2 = next_array h1"
    using ProcessData_loop_result [of 0 "int (len_b b1)" b1 h1] a(2) l(1) by auto
  have eq: "ProcessData g h (Some p) dat = Inr (b1, p\<lparr>buffer := b1\<rparr>, h2)"
    using sl a(1) l(1) by (simp add: ProcessData_def)
  have e0: "bytes h b0 = []" by (simp add: bytes_def b0_def)
  show ?thesis
    using eq a(2,4,5,6) l(2,3) a(3) e0 n2 by (auto simp: b0_def)
qed

lemma index_b_bytes:
  assumes "wf_b h s" and "0 \<le> i" and "i < int (len_b s)"
  shows "index_b h s i = Inr (bytes h s ! nat i)"
proof -
  have "0 < cap_b s" "len_b s \<le> cap_b s"
    using assms by (auto simp: wf_b_def)
  then have "off s + cap_b s \<le> length (arrays h (base s))"
    using assms(1) by (auto simp: wf_b_def)
  then have "off s \<le> length (arrays h (base s))" by simp
  then show ?thesis
    using assms(2,3) by (simp add: index_b_def bytes_def)
qed

lemma NewBufferProcessor_wf:
  "\<exists>p h'. NewBufferProcessor h = (Some p, h') \<and> wf_b h' (buffer p) \<and>
     len_b (buffer p) = 0 \<and> cap_b (buffer p) = 1024 \<and> (\<forall>t. wf_b h t \<longrightarrow> wf_b h' t)"
proof -
  define h' where "h' = h\<lparr>arrays := (arrays h)(next_array h := replicate 1024 0),
    next_array := Suc (next_array h)\<rparr>"
  have mono: "\<forall>t. wf_b h t \<longrightarrow> wf_b h' t"
  proof (intro allI impI)
    fix t assume "wf_b h t"
    then show "wf_b h' t"
      by (rule wf_b_heap_mono) (simp_all add: h'_def)
  qed
  then show ?thesis
    by (simp add: NewBufferProcessor_def make_bytes_def Let_def wf_b_def h'_def)
qed

text \<open>
  C10.  For every processor and every input slice, ProcessData returns a slice as long as
  the input whose byte at every index is the input's byte XOR 0xFF; applying ProcessData
  to that result, with the same or any other processor, gives the original bytes back.
  The processor's buffer and the input are slices that are valid in the heap.
\<close>

theorem ProcessData_xor_involution:
  assumes p: "wf_b h (buffer p)" and d: "wf_b h dat"
  shows "\<exists>r p' h'. ProcessData g h (Some p) dat = Inr (r, p', h') \<and>
           len_b r = len_b dat \<and>
           bytes h' r = map (\<lambda>b. b XOR 0xFF) (bytes h dat) \<and>
           (\<forall>i. 0 \<le> i \<and> i < int (len_b dat) \<longrightarrow>
              (\<exists>v. index_b h dat i = Inr v \<and> index_b h' r i = Inr (v XOR 0xFF))) \<and>
           wf_b h' (buffer p') \<and>
           (\<forall>q. wf_b h' (buffer q) \<longrightarrow>
              (\<exists>r2 q2 h2. ProcessData g h' (Some q) r = Inr (r2, q2, h2) \<and>
                 bytes h2 r2 = bytes h dat))"
proof -
  from ProcessData_result [OF p d, of g]
  obtain r h' where 1: "ProcessData g h (Some p) dat = Inr (r, p\<lparr>buffer := r\<rparr>, h')"
      "wf_b h' r" "len_b r = len_b dat"
      "bytes h' r = map (\<lambda>b. b XOR 0xFF) (bytes h dat)"
    by blast
  have idx: "\<forall>i. 0 \<le> i \<and> i < int (len_b dat) \<longrightarrow>
      (\<exists>v. index_b h dat i = Inr v \<and> index_b h' r i = Inr (v XOR 0xFF))"
  proof (intro allI impI)
    fix i assume i: "0 \<le> i \<and> i < int (len_b dat)"
    then have "nat i < length (bytes h dat)"
      using length_bytes [OF d] by auto
    then have "bytes h' r ! nat i = bytes h dat ! nat i XOR 0xFF"
      using 1(4) by simp
    moreover have "index_b h dat i = Inr (bytes h dat ! nat i)"
      using d i by (simp add: index_b_bytes)
    moreover have "index_b h' r i = Inr (bytes h' r ! nat i)"
      using 1(2,3) i by (simp add: index_b_bytes)
    ultimately show "\<exists>v. index_b h dat i = Inr v \<and> index_b h' r i = Inr (v XOR 0xFF)"
      by simp
  qed
  have twice: "\<forall>q. wf_b h' (buffer q) \<longrightarrow>
      (\<exists>r2 q2 h2. ProcessData g h' (Some q) r = Inr (r2, q2, h2) \<and>
         bytes h2 r2 = bytes h dat)"
  proof (intro allI impI)
    fix q :: BufferProcessor
    assume q: "wf_b h' (buffer q)"
    from ProcessData_result [OF q 1(2), of g]
    obtain r2 h2 where 2: "ProcessData g h' (Some q) r = Inr (r2, q\<lparr>buffer := r2\<rparr>, h2)"
        "bytes h2 r2 = map (\<lambda>b. b XOR 0xFF) (bytes h' r)"
      by blast
    have "map (\<lambda>b. b XOR 0xFF) (bytes h' r) = bytes h dat"
      using 1(4) by (simp add: flip_flip o_def)
    with 2 show "\<exists>r2 q2 h2. ProcessData g h' (Some q) r = Inr (r2, q2, h2) \<and>
        bytes h2 r2 = bytes h dat"
      by simp
  qed
  show ?thesis
    using 1 idx twice by simp
qed

theorem ProcessData_xor_involution_witness:
  "wf_b \<lparr>arrays = (\<lambda>a. [])(0 := [1, 2, 3]), next_array = 1\<rparr> (buffer \<lparr>buffer = nil_bytes\<rparr>) \<and>
   wf_b \<lparr>arrays = (\<lambda>a. [])(0 := [1, 2, 3]), next_array = 1\<rparr>
     \<lparr>base = 0, off = 0, len_b = 3, cap_b = 3\<rparr> \<and>
   (\<exists>r p' h'.
      ProcessData (\<lambda>c n. 2 * c) \<lparr>arrays = (\<lambda>a. [])(0 := [1, 2, 3]), next_array = 1\<rparr>
        (Some \<lparr>buffer = nil_bytes\<rparr>) \<lparr>base = 0, off = 0, len_b = 3, cap_b = 3\<rparr> =
        Inr (r, p', h') \<and>
      bytes h' r = [254, 253, 252] \<and>
      (\<exists>r2 q2 h2. ProcessData (\<lambda>c n. 2 * c) h' (Some p') r = Inr (r2, q2, h2) \<and>
         bytes h2 r2 = [1, 2, 3]))"
proof -
  let ?h = "\<lparr>arrays = (\<lambda>a. [])(0 := [1, 2, 3 :: byte]), next_array = 1\<rparr>"
  let ?d = "\<lparr>base = 0, off = 0, len_b = 3, cap_b = 3\<rparr>"
  have a: "wf_b ?h (buffer \<lparr>buffer = nil_bytes\<rparr>)"
    by (simp add: wf_b_def nil_bytes_def)
  have b: "wf_b ?h ?d"
    by (simp add: wf_b_def)
  have c: "bytes ?h ?d = [1, 2, 3]"
    by (simp add: bytes_def)
  from ProcessData_xor_involution [OF a b, of "\<lambda>c n. 2 * c"] c
  obtain r p' h' where
    "ProcessData (\<lambda>c n. 2 * c) ?h (Some \<lparr>buffer = nil_bytes\<rparr>) ?d = Inr (r, p', h')"
    "bytes h' r = [254, 253, 252]"
    "\<exists>r2 q2 h2. ProcessData (\<lambda>c n. 2 * c) h' (Some p') r = Inr (r2, q2, h2) \<and>
       bytes h2 r2 = [1, 2, 3]"
    by auto
  with a b show ?thesis by blast
qed

text \<open>
  C7, as amended.  The bytes of the slice ProcessData returns depend only on the bytes of
  the argument: two calls on equal bytes give equal bytes, whatever the two processors
  and heaps went through before.  The buffer itself outlives the call: the processor
  keeps the returned slice as its buffer, and a call whose dat fits the capacity of the
  buffer reuses the same array at the same offset.
\<close>

theorem ProcessData_bytes_depend_only_on_data:
  assumes "wf_b h1 (buffer p1)" and "wf_b h1 d1"
    and "wf_b h2 (buffer p2)" and "wf_b h2 d2"
    and "bytes h1 d1 = bytes h2 d2"
  shows "\<exists>r1 k1 r2 k2.
           ProcessData g1 h1 (Some p1) d1 = Inr (r1, p1\<lparr>buffer := r1\<rparr>, k1) \<and>
           ProcessData g2 h2 (Some p2) d2 = Inr (r2, p2\<lparr>buffer := r2\<rparr>, k2) \<and>
           bytes k1 r1 = bytes k2 r2 \<and>
           (len_b d1 \<le> cap_b (buffer p1) \<longrightarrow>
              base r1 = base (buffer p1) \<and> off r1 = off (buffer p1) \<and>
              cap_b r1 = cap_b (buffer p1))"
proof -
  from ProcessData_result [OF assms(1,2), of g1]
  obtain r1 k1 where 1: "ProcessData g1 h1 (Some p1) d1 = Inr (r1, p1\<lparr>buffer := r1\<rparr>, k1)"
      "bytes k1 r1 = map (\<lambda>b. b XOR 0xFF) (bytes h1 d1)"
      "len_b d1 \<le> cap_b (buffer p1) \<longrightarrow>
         base r1 = base (buffer p1) \<and> off r1 = off (buffer p1) \<and>
         cap_b r1 = cap_b (buffer p1) \<and> next_array k1 = next_array h1"
    by blast
  from ProcessData_result [OF assms(3,4), of g2]
  obtain r2 k2 where 2: "ProcessData g2 h2 (Some p2) d2 = Inr (r2, p2\<lparr>buffer := r2\<rparr>, k2)"
      "bytes k2 r2 = map (\<lambda>b. b XOR 0xFF) (bytes h2 d2)"
    by blast
  from 1 2 assms(5) show ?thesis by simp
qed

theorem ProcessData_bytes_depend_only_on_data_witness:
  "wf_b \<lparr>arrays = (\<lambda>a. [])(0 := [9, 9, 9, 9], 1 := [5, 7]), next_array = 2\<rparr>
     (buffer \<lparr>buffer = \<lparr>base = 0, off = 0, len_b = 3, cap_b = 4\<rparr>\<rparr>) \<and>
   wf_b \<lparr>arrays = (\<lambda>a. [])(0 := [9, 9, 9, 9], 1 := [5, 7]), next_array = 2\<rparr>
     \<lparr>base = 1, off = 1, len_b = 1, cap_b = 1\<rparr> \<and>
   wf_b \<lparr>arrays = (\<lambda>a. [])(0 := [7]), next_array = 1\<rparr> (buffer \<lparr>buffer = nil_bytes\<rparr>) \<and>
   wf_b \<lparr>arrays = (\<lambda>a. [])(0 := [7]), next_array = 1\<rparr>
     \<lparr>base = 0, off = 0, len_b = 1, cap_b = 1\<rparr> \<and>
   (\<exists>r1 k1 r2 k2.
      ProcessData (\<lambda>c n. n)
        \<lparr>arrays = (\<lambda>a. [])(0 := [9, 9, 9, 9], 1 := [5, 7]), next_array = 2\<rparr>
        (Some \<lparr>buffer = \<lparr>base = 0, off = 0, len_b = 3, cap_b = 4\<rparr>\<rparr>)
        \<lparr>base = 1, off = 1, len_b = 1, cap_b = 1\<rparr> =
        Inr (r1, \<lparr>buffer = r1\<rparr>, k1) \<and>
      ProcessData (\<lambda>c n. 2 * c) \<lparr>arrays = (\<lambda>a. [])(0 := [7]), next_array = 1\<rparr>
        (Some \<lparr>buffer = nil_bytes\<rparr>) \<lparr>base = 0, off = 0, len_b = 1, cap_b = 1\<rparr> =
        Inr (r2, \<lparr>buffer = r2\<rparr>, k2) \<and>
      bytes k1 r1 = bytes k2 r2 \<and> base r1 = 0 \<and> cap_b r1 = 4)"
proof -
  let ?h1 = "\<lparr>arrays = (\<lambda>a. [])(0 := [9, 9, 9, 9 :: byte], 1 := [5, 7]), next_array = 2\<rparr>"
  let ?p1 = "\<lparr>buffer = \<lparr>base = 0, off = 0, len_b = 3, cap_b = 4\<rparr>\<rparr>"
  let ?d1 = "\<lparr>base = 1, off = 1, len_b = 1, cap_b = 1\<rparr>"
  let ?h2 = "\<lparr>arrays = (\<lambda>a. [])(0 := [7 :: byte]), next_array = 1\<rparr>"
  let ?p2 = "\<lparr>buffer = nil_bytes\<rparr>"
  let ?d2 = "\<lparr>base = 0, off = 0, len_b = 1, cap_b = 1\<rparr>"
  have a: "wf_b ?h1 (buffer ?p1)" by (simp add: wf_b_def)
  have b: "wf_b ?h1 ?d1" by (simp add: wf_b_def)
  have c: "wf_b ?h2 (buffer ?p2)" by (simp add: wf_b_def nil_bytes_def)
  have d: "wf_b ?h2 ?d2" by (simp add: wf_b_def)
  have e: "bytes ?h1 ?d1 = bytes ?h2 ?d2" by (simp add: bytes_def)
  from ProcessData_bytes_depend_only_on_data [OF a b c d e, of "\<lambda>c n. n" "\<lambda>c n. 2 * c"]
  obtain r1 k1 r2 k2 where
    "ProcessData (\<lambda>c n. n) ?h1 (Some ?p1) ?d1 = Inr (r1, ?p1\<lparr>buffer := r1\<rparr>, k1)"
    "ProcessData (\<lambda>c n. 2 * c) ?h2 (Some ?p2) ?d2 = Inr (r2, ?p2\<lparr>buffer := r2\<rparr>, k2)"
    "bytes k1 r1 = bytes k2 r2" "base r1 = 0" "cap_b r1 = 4"
    by auto
  with a b c d show ?thesis by auto
qed

text \<open>
  C7 as stated fails: the buffer of a processor is used across calls.  After two calls on
  one processor from NewBufferProcessor, the second result is the very slice the first
  call returned, and the bytes read through the first result have changed.
\<close>

theorem earlier_result_overwritten_counterexample:
  "(case NewBufferProcessor \<lparr>arrays = (\<lambda>a. [])(0 := [1], 1 := [2]), next_array = 2\<rparr> of
      (bp, e1) \<Rightarrow>
        (case ProcessData (\<lambda>c n. 2 * c) e1 bp \<lparr>base = 0, off = 0, len_b = 1, cap_b = 1\<rparr> of
           Inl _ \<Rightarrow> False
         | Inr (r1, bp1, e2) \<Rightarrow>
             (case ProcessData (\<lambda>c n. 2 * c) e2 (Some bp1)
                     \<lparr>base = 1, off = 0, len_b = 1, cap_b = 1\<rparr> of
                Inl _ \<Rightarrow> False
              | Inr (r2, bp2, e3) \<Rightarrow>
                  bytes e2 r1 = [254] \<and> bytes e3 r1 = [253] \<and> r2 = r1 \<and> buffer bp1 = r1)))"
  by (simp add: NewBufferProcessor_def make_bytes_def ProcessData_def slice_to_b_def
      append_bytes_def bytes_def write_at_def ProcessData_loop.simps index_b_def
      set_index_b_def Let_def)

subsection \<open>The object pool\<close>

lemma useSyncPool_panics_iff:
  "useSyncPool pick st pl = Inl NilDereference \<longleftrightarrow> nil_picked pick pl"
  by (auto simp: useSyncPool_def pool_Get_def largeStructPool_New_def nil_picked_def Let_def
      split: option.splits)

lemma useSyncPool_zeroed:
  assumes "\<not> nil_picked pick pl"
  shows "\<exists>a st' pl'. useSyncPool pick st pl = Inr (Some a, st', pl') \<and>
           objs st' a = zero_LargeStruct"
  using assms
  by (auto simp: useSyncPool_def pool_Get_def largeStructPool_New_def nil_picked_def Let_def
      split: option.splits)

lemma useSyncPool_returns_iff: "returns (useSyncPool pick st pl) \<longleftrightarrow> \<not> nil_picked pick pl"
proof (cases "nil_picked pick pl")
  case True
  then show ?thesis using useSyncPool_panics_iff [of pick st pl] by (simp add: returns_def)
next
  case False
  with useSyncPool_zeroed [OF False, of st] show ?thesis by (auto simp: returns_def)
qed

text \<open>
  C9, as amended.  Whatever the store holds, useSyncPool returns a pointer to a
  LargeStruct whose 3000 entries are all zero, unless the item the pool hands out is a
  nil pointer that was handed back to it; then the reset panics.
\<close>

theorem useSyncPool_zeroed_unless_nil_picked:
  "(nil_picked pick pl \<longrightarrow> useSyncPool pick st pl = Inl NilDereference) \<and>
   (\<not> nil_picked pick pl \<longrightarrow>
      (\<exists>a st' pl'. useSyncPool pick st pl = Inr (Some a, st', pl') \<and>
         objs st' a = zero_LargeStruct \<and>
         length (data (objs st' a)) = 3000 \<and>
         (\<forall>i < 3000. data (objs st' a) ! i = 0)))"
proof (intro conjI impI)
  assume "nil_picked pick pl"
  then show "useSyncPool pick st pl = Inl NilDereference"
    by (simp add: useSyncPool_panics_iff)
next
  assume "\<not> nil_picked pick pl"
  from useSyncPool_zeroed [OF this, of st]
  obtain a st' pl' where "useSyncPool pick st pl = Inr (Some a, st', pl')"
      "objs st' a = zero_LargeStruct"
    by blast
  then show "\<exists>a st' pl'. useSyncPool pick st pl = Inr (Some a, st', pl') \<and>
      objs st' a = zero_LargeStruct \<and> length (data (objs st' a)) = 3000 \<and>
      (\<forall>i < 3000. data (objs st' a) ! i = 0)"
    by (simp add: zero_LargeStruct_def)
qed

theorem useSyncPool_zeroed_unless_nil_picked_witness:
  "\<not> nil_picked (Some 0) (returnToPool [] (Some 0)) \<and>
   (\<exists>st' pl'.
      useSyncPool (Some 0) \<lparr>objs = (\<lambda>a. \<lparr>data = replicate 3000 7\<rparr>), next_obj = 1\<rparr>
        (returnToPool [] (Some 0)) = Inr (Some 0, st', pl') \<and>
      data (objs st' 0) ! 5 = 0)"
proof -
  have a: "\<not> nil_picked (Some 0) (returnToPool [] (Some 0))"
    by (simp add: nil_picked_def returnToPool_def pool_Put_def)
  have b: "pool_Get (Some 0) st (returnToPool [] (Some 0)) = (Some 0, st, [])" for st
    by (simp add: pool_Get_def returnToPool_def pool_Put_def)
  from useSyncPool_zeroed_unless_nil_picked [of "Some 0" "returnToPool [] (Some 0)"
      "\<lparr>objs = (\<lambda>a. \<lparr>data = replicate 3000 7\<rparr>), next_obj = 1\<rparr>"]
  show ?thesis using a by (auto simp: useSyncPool_def b)
qed

text \<open>
  C9 as stated fails: returnToPool accepts a nil pointer, and when the pool hands it out
  the reset in useSyncPool dereferences it.
\<close>

theorem nil_handed_back_counterexample:
  "useSyncPool (Some 0) \<lparr>objs = (\<lambda>a. zero_LargeStruct), next_obj = 0\<rparr>
     (returnToPool [] None) = Inl NilDereference"
  by (simp add: useSyncPool_def pool_Get_def returnToPool_def pool_Put_def)

subsection \<open>Channels\<close>

text \<open>
  C8, as amended.  The send of sendToChannel completes at once exactly when the channel
  is not nil, is open, and has a receiver waiting or a free slot in its buffer.  It
  blocks exactly when the channel is nil, or is open with no receiver waiting and a full
  buffer (an unbuffered channel is always full).
\<close>

theorem sendToChannel_completes_iff:
  "(completes (sendToChannel ch) \<longleftrightarrow>
      (\<exists>c. ch = Some c \<and> \<not> chan_closed c \<and>
           (0 < recv_waiting c \<or> length (chan_buf c) < chan_cap c))) \<and>
   (sendToChannel ch = Blocks \<longleftrightarrow>
      ch = None \<or>
      (\<exists>c. ch = Some c \<and> \<not> chan_closed c \<and> recv_waiting c = 0 \<and>
           chan_cap c \<le> length (chan_buf c)))"
  by (cases ch) (auto simp: sendToChannel_def chansend_def completes_def)

theorem sendToChannel_completes_iff_witness:
  "completes (sendToChannel
     (Some \<lparr>chan_cap = 1, chan_buf = [], chan_closed = False, recv_waiting = 0\<rparr>))"
  using sendToChannel_completes_iff
    [of "Some \<lparr>chan_cap = 1, chan_buf = [], chan_closed = False, recv_waiting = 0\<rparr>"]
  by simp

text \<open>
  C8 as stated fails: on an open channel of capacity 1 that already holds a value, with
  no receiver waiting, the send blocks.
\<close>

theorem send_on_full_channel_blocks_counterexample:
  "sendToChannel (Some \<lparr>chan_cap = 1, chan_buf = [42], chan_closed = False, recv_waiting = 0\<rparr>)
     = Blocks \<and>
   \<not> completes (sendToChannel
       (Some \<lparr>chan_cap = 1, chan_buf = [42], chan_closed = False, recv_waiting = 0\<rparr>))"
  by (simp add: sendToChannel_def chansend_def completes_def)

subsection \<open>Every example function\<close>

lemma of_result_Returned: "of_result r = Returned \<longleftrightarrow> returns r"
  by (cases r) (simp_all add: of_result_def returns_def)

lemma of_send_Returned: "of_send r = Returned \<longleftrightarrow> completes r"
  by (cases r) (simp_all add: of_send_def completes_def)

lemma initSliceViaPointer_nil: "initSliceViaPointer maxlen None sz = Inl NilDereference"
  by (simp add: initSliceViaPointer_def)

lemma setLargeStructViaPointer_nil: "setLargeStructViaPointer st None = Inl NilDereference"
  by (simp add: setLargeStructViaPointer_def setLargeStructViaPointer_loop.simps [of st None 0]
      set_data_def)

lemma setLargeStructViaPointer_loop_returns:
  "0 \<le> i \<Longrightarrow> returns (setLargeStructViaPointer_loop st (Some a) i)"
proof (induction st "Some a :: LargeStruct_ptr" i rule: setLargeStructViaPointer_loop.induct)
  case (1 st i)
  show ?case
  proof (cases "i < 3000")
    case False
    then show ?thesis
      by (simp add: setLargeStructViaPointer_loop.simps [of st "Some a" i] returns_def)
  next
    case True
    define st' where "st' = st\<lparr>objs := (objs st)
      (a := (objs st a)\<lparr>data := (data (objs st a))[nat i := i]\<rparr>)\<rparr>"
    have w: "set_data st (Some a) i i = Inr st'"
      using True "1.prems" by (simp add: set_data_def st'_def)
    have "0 \<le> i + 1" using "1.prems" by simp
    from "1.hyps" [OF True w this] True w show ?thesis
      by (simp add: setLargeStructViaPointer_loop.simps [of st "Some a" i])
  qed
qed

lemma processValueSemantics_loop_returns:
  "0 \<le> i \<Longrightarrow> n \<le> int (length dat) \<Longrightarrow> returns (processValueSemantics_loop dat i n)"
proof (induction dat i n rule: processValueSemantics_loop.induct)
  case (1 dat i n)
  show ?case
  proof (cases "i < n")
    case False
    then show ?thesis
      by (simp add: processValueSemantics_loop.simps [of dat i n] returns_def)
  next
    case True
    have r: "array_get dat i = Inr (dat ! nat i)"
      using True "1.prems" by (simp add: array_get_def)
    have w: "array_set dat i (dat ! nat i * 2) = Inr (dat[nat i := dat ! nat i * 2])"
      using True "1.prems" by (simp add: array_set_def)
    have "0 \<le> i + 1" "n \<le> int (length (dat[nat i := dat ! nat i * 2]))"
      using "1.prems" by simp_all
    from "1.IH" [OF True r w this] True r w show ?thesis
      by (simp add: processValueSemantics_loop.simps [of dat i n])
  qed
qed

lemma fixedArrayProcessing_loop_returns:
  "0 \<le> i \<Longrightarrow> n \<le> int (length arr) \<Longrightarrow> returns (fixedArrayProcessing_loop arr i n)"
proof (induction arr i n rule: fixedArrayProcessing_loop.induct)
  case (1 arr i n)
  show ?case
  proof (cases "i < n")
    case False
    then show ?thesis
      by (simp add: fixedArrayProcessing_loop.simps [of arr i n] returns_def)
  next
    case True
    have w: "array_set arr i (i * i) = Inr (arr[nat i := i * i])"
      using True "1.prems" by (simp add: array_set_def)
    have "0 \<le> i + 1" "n \<le> int (length (arr[nat i := i * i]))"
      using "1.prems" by simp_all
    from "1.IH" [OF True w this] True w show ?thesis
      by (simp add: fixedArrayProcessing_loop.simps [of arr i n])
  qed
qed

lemma createStackFriendlyStruct_loop_returns:
  "0 \<le> i \<Longrightarrow> n \<le> int (length (Data s)) \<Longrightarrow>
     returns (createStackFriendlyStruct_loop s i n)"
proof (induction s i n rule: createStackFriendlyStruct_loop.induct)
  case (1 s i n)
  show ?case
  proof (cases "i < n")
    case False
    then show ?thesis
      by (simp add: createStackFriendlyStruct_loop.simps [of s i n] returns_def)
  next
    case True
    have w: "array_set (Data s) i i = Inr ((Data s)[nat i := i])"
      using True "1.prems" by (simp add: array_set_def)
    have "0 \<le> i + 1" "n \<le> int (length (Data (s\<lparr>Data := (Data s)[nat i := i]\<rparr>)))"
      using "1.prems" by simp_all
    from "1.IH" [OF True w this] True w show ?thesis
      by (simp add: createStackFriendlyStruct_loop.simps [of s i n])
  qed
qed

lemma createStackFriendlyStruct_returns: "returns createStackFriendlyStruct"
proof -
  let ?s = "\<lparr>Data = replicate 10 (0::int), Name = replicate 32 (0::byte)\<rparr>"
  have "returns (createStackFriendlyStruct_loop ?s 0 (int (length (Data ?s))))"
    by (rule createStackFriendlyStruct_loop_returns) simp_all
  then show ?thesis
    by (auto simp: createStackFriendlyStruct_def Let_def returns_def split: sum.splits)
qed

lemma ProcessData_loop_returns:
  "0 \<le> i \<Longrightarrow> n \<le> int (len_b s) \<Longrightarrow> returns (ProcessData_loop h s i n)"
proof (induction h s i n rule: ProcessData_loop.induct)
  case (1 h s i n)
  show ?case
  proof (cases "i < n")
    case False
    then show ?thesis
      by (simp add: ProcessData_loop.simps [of h s i n] returns_def)
  next
    case True
    define v where "v = arrays h (base s) ! (off s + nat i)"
    define h' where "h' = h\<lparr>arrays := (arrays h)
      (base s := (arrays h (base s))[off s + nat i := v XOR 0xFF])\<rparr>"
    have r: "index_b h s i = Inr v"
      using True "1.prems" by (simp add: index_b_def v_def)
    have w: "set_index_b h s i (v XOR 0xFF) = Inr h'"
      using True "1.prems" by (simp add: set_index_b_def h'_def)
    have "0 \<le> i + 1" using "1.prems" by simp
    from "1.IH" [OF True r w this "1.prems"(2)] True r w show ?thesis
      by (simp add: ProcessData_loop.simps [of h s i n])
  qed
qed

lemma ProcessData_returns_iff: "returns (ProcessData g h bp dat) \<longleftrightarrow> bp \<noteq> None"
proof (cases bp)
  case None
  then show ?thesis by (simp add: ProcessData_def returns_def)
next
  case (Some p)
  obtain b1 h1 where a: "append_bytes g h ((buffer p)\<lparr>len_b := 0\<rparr>) dat = (b1, h1)"
    by (cases "append_bytes g h ((buffer p)\<lparr>len_b := 0\<rparr>) dat")
  have "returns (ProcessData_loop h1 b1 0 (int (len_b b1)))"
    by (rule ProcessData_loop_returns) simp_all
  with Some a show ?thesis
    by (auto simp: ProcessData_def slice_to_b_def returns_def split: sum.splits)
qed

lemma sendToChannel_completes:
  "completes (sendToChannel ch) \<longleftrightarrow>
     (case ch of
        None \<Rightarrow> False
      | Some c \<Rightarrow>
          \<not> (chan_closed c \<or> (recv_waiting c = 0 \<and> chan_cap c \<le> length (chan_buf c))))"
  by (cases ch) (auto simp: sendToChannel_def chansend_def completes_def)

text \<open>
  C1, as amended.  Every example function completes normally on every input, except on
  the inputs \<open>exceptional_input\<close> lists, where it panics or blocks: createSlice with a
  size that is negative or above the largest length the run time allocates;
  initSliceViaPointer with a nil pointer, a negative size, or a size above both the
  capacity of the slice pointed to and that largest length; setValueViaPointer and
  setLargeStructViaPointer with a nil pointer; ProcessData with a nil receiver;
  assignToMap with a nil map; sendToChannel on a nil or closed channel, or on one with a
  full buffer and no receiver waiting; useSyncPool when the pool hands out a nil pointer;
  copyInsteadOfNew with a slice longer than the run time allocates.
\<close>

theorem example_functions_complete_unless_exceptional:
  "run_example maxlen growcap c = Returned \<longleftrightarrow> \<not> exceptional_input maxlen c"
proof (cases c)
  case (Call_createSlice sz)
  then show ?thesis
    using createSlice_returns_iff [of maxlen sz] by (auto simp: of_result_Returned)
next
  case (Call_sendToChannel ch)
  then show ?thesis
    by (simp add: of_send_Returned sendToChannel_completes split: option.splits)
next
  case (Call_assignToMap st m)
  then show ?thesis
    by (cases m) (simp_all add: of_result_def assignToMap_def Let_def)
next
  case (Call_setValueViaPointer st result)
  then show ?thesis
    by (cases result) (simp_all add: of_result_def setValueViaPointer_def)
next
  case (Call_setLargeStructViaPointer st result)
  show ?thesis
  proof (cases result)
    case None
    with Call_setLargeStructViaPointer show ?thesis
      by (simp add: of_result_def setLargeStructViaPointer_nil)
  next
    case (Some a)
    have "returns (setLargeStructViaPointer_loop st (Some a) 0)"
      by (rule setLargeStructViaPointer_loop_returns) simp
    with Some Call_setLargeStructViaPointer show ?thesis
      by (simp add: of_result_Returned setLargeStructViaPointer_def)
  qed
next
  case (Call_initSliceViaPointer result sz)
  show ?thesis
  proof (cases result)
    case None
    with Call_initSliceViaPointer show ?thesis
      by (simp add: of_result_def initSliceViaPointer_nil)
  next
    case (Some s)
    with Call_initSliceViaPointer initSliceViaPointer_returns_iff [of maxlen s sz]
    show ?thesis
      by (auto simp: of_result_Returned)
  qed
next
  case (Call_processValueSemantics dat)
  have "returns (processValueSemantics_loop dat 0 (int (length dat)))"
    by (rule processValueSemantics_loop_returns) simp_all
  with Call_processValueSemantics show ?thesis
    by (simp add: of_result_Returned processValueSemantics_def)
next
  case Call_fixedArrayProcessing
  have "returns (fixedArrayProcessing_loop (replicate 10 0) 0 (int (length (replicate 10 (0::int)))))"
    by (rule fixedArrayProcessing_loop_returns) simp_all
  with Call_fixedArrayProcessing show ?thesis
    by (simp add: of_result_Returned fixedArrayProcessing_def Let_def)
next
  case (Call_useSyncPool pick st pl)
  then show ?thesis
    by (simp add: of_result_Returned useSyncPool_returns_iff)
next
  case (Call_ProcessData h bp dat)
  then show ?thesis
    by (simp add: of_result_Returned ProcessData_returns_iff)
next
  case (Call_copyInsteadOfNew src)
  then show ?thesis
    by (auto simp: of_result_def copyInsteadOfNew_def makeslice_def)
next
  case Call_createStackFriendlyStruct
  then show ?thesis
    by (simp add: of_result_Returned createStackFriendlyStruct_returns)
qed (simp_all add: of_value_def)

theorem example_functions_complete_unless_exceptional_witness:
  "run_example (2 ^ 45) (\<lambda>c n. 2 * c) (Call_createSlice 3) = Returned \<and>
   run_example (2 ^ 45) (\<lambda>c n. 2 * c)
     (Call_initSliceViaPointer (Some \<lparr>backing = [], len_i = 0\<rparr>) 3) = Returned \<and>
   run_example (2 ^ 45) (\<lambda>c n. 2 * c)
     (Call_setLargeStructViaPointer \<lparr>objs = (\<lambda>a. zero_LargeStruct), next_obj = 1\<rparr> (Some 0))
     = Returned \<and>
   run_example (2 ^ 45) (\<lambda>c n. 2 * c)
     (Call_ProcessData \<lparr>arrays = (\<lambda>a. [])(0 := [1, 2, 3]), next_array = 1\<rparr>
        (Some \<lparr>buffer = nil_bytes\<rparr>) \<lparr>base = 0, off = 0, len_b = 3, cap_b = 3\<rparr>) = Returned \<and>
   run_example (2 ^ 45) (\<lambda>c n. 2 * c) Call_createStackFriendlyStruct = Returned \<and>
   run_example (2 ^ 45) (\<lambda>c n. 2 * c) (Call_createSlice (- 1)) \<noteq> Returned"
  using
    example_functions_complete_unless_exceptional [of "2 ^ 45" "\<lambda>c n. 2 * c" "Call_createSlice 3"]
    example_functions_complete_unless_exceptional [of "2 ^ 45" "\<lambda>c n. 2 * c"
      "Call_initSliceViaPointer (Some \<lparr>backing = [], len_i = 0\<rparr>) 3"]
    example_functions_complete_unless_exceptional [of "2 ^ 45" "\<lambda>c n. 2 * c"
      "Call_setLargeStructViaPointer \<lparr>objs = (\<lambda>a. zero_LargeStruct), next_obj = 1\<rparr> (Some 0)"]
    example_functions_complete_unless_exceptional [of "2 ^ 45" "\<lambda>c n. 2 * c"
      "Call_ProcessData \<lparr>arrays = (\<lambda>a. [])(0 := [1, 2, 3]), next_array = 1\<rparr>
         (Some \<lparr>buffer = nil_bytes\<rparr>) \<lparr>base = 0, off = 0, len_b = 3, cap_b = 3\<rparr>"]
    example_functions_complete_unless_exceptional [of "2 ^ 45" "\<lambda>c n. 2 * c"
      Call_createStackFriendlyStruct]
    example_functions_complete_unless_exceptional [of "2 ^ 45" "\<lambda>c n. 2 * c"
      "Call_createSlice (- 1)"]
  by simp

text \<open>
  C1 as stated fails.  With size -1, createSlice panics in make and initSliceViaPointer
  panics on the slice expression, since every capacity is at least -1.  A nil pointer,
  receiver or map makes the functions that write through it panic; a send on a nil
  channel blocks and a send on a closed channel panics; and useSyncPool panics when the
  pool hands out a nil pointer.
\<close>

theorem example_functions_fail_counterexample:
  "createSlice (2 ^ 45) (- 1) = Inl MakeSliceLenOutOfRange \<and>
   initSliceViaPointer (2 ^ 45) (Some \<lparr>backing = [], len_i = 0\<rparr>) (- 1) =
     Inl SliceBoundsOutOfRange \<and>
   initSliceViaPointer (2 ^ 45) None 3 = Inl NilDereference \<and>
   setValueViaPointer \<lparr>cells = (\<lambda>a. 0), next_cell = 0\<rparr> None = Inl NilDereference \<and>
   setLargeStructViaPointer \<lparr>objs = (\<lambda>a. zero_LargeStruct), next_obj = 0\<rparr> None =
     Inl NilDereference \<and>
   ProcessData (\<lambda>c n. 2 * c) \<lparr>arrays = (\<lambda>a. []), next_array = 0\<rparr> None nil_bytes =
     Inl NilDereference \<and>
   assignToMap \<lparr>cells = (\<lambda>a. 0), next_cell = 0\<rparr> None = Inl AssignToNilMap \<and>
   sendToChannel None = Blocks \<and>
   sendToChannel (Some \<lparr>chan_cap = 1, chan_buf = [], chan_closed = True, recv_waiting = 0\<rparr>)
     = Panics SendOnClosedChannel \<and>
   useSyncPool (Some 1) \<lparr>objs = (\<lambda>a. zero_LargeStruct), next_obj = 1\<rparr> [Some 0, None] =
     Inl NilDereference"
  by (simp add: createSlice_def makeslice_def initSliceViaPointer_def slice_to_def
      setValueViaPointer_def setLargeStructViaPointer_nil ProcessData_def assignToMap_def
      sendToChannel_def chansend_def useSyncPool_def pool_Get_def Let_def)

end
